theory Spec2Isabelle
  imports Complex_Main "HOL-Library.Word" "HOL-Library.Log_Nat"
begin

section \<open>lzdatagen: the generation engine of \<^verbatim>\<open>lzdatagen.c\<close>\<close>

text \<open>
  The development embeds the functions of \<^verbatim>\<open>src/lzdatagen.c\<close>:
  \<^verbatim>\<open>rand_double\<close>, the two literal generators, \<^verbatim>\<open>generate_lengths\<close>,
  \<^verbatim>\<open>generate_data_internal\<close> and the two entry points.

  \<^item> Byte arrays (the destination, the scratch \<^verbatim>\<open>buffer\<close>, \<^verbatim>\<open>samples\<close>) are
    stores \<open>nat \<Rightarrow> u8\<close> indexed by offset; a pointer into the destination is an
    address. A store is total, so a write at any address takes effect and can be
    observed: that a function stays inside its bounds is a theorem, not an
    artefact of the representation.
  \<^item> \<^verbatim>\<open>pcg32_random\<close> comes from the PCG library, which is not part of the
    repository. The generator state is the infinite sequence of 32-bit values it
    will return; a draw takes the head and leaves the tail.
  \<^item> A finite \<^verbatim>\<open>double\<close> or \<^verbatim>\<open>float\<close> is the rational number it denotes.
    The conversion \<^verbatim>\<open>(float) x\<close> is IEEE 754 round-to-nearest-even onto the
    binary32 grid. \<^verbatim>\<open>powf\<close> belongs to the C library and is a parameter of
    every function that reaches it.
  \<^item> \<^verbatim>\<open>assert\<close> is an error value: a failed assertion ends the call.
  \<^item> \<^verbatim>\<open>size_t\<close> and \<^verbatim>\<open>unsigned int\<close> values are \<open>nat\<close>: the histogram
    counters never exceed \<^verbatim>\<open>LEN_PER_CHUNK\<close>, and every subtraction
    \<^verbatim>\<open>size - i\<close> is taken with \<open>i \<le> size\<close> (shown below), so no
    wrap-around is reachable.
\<close>

subsection \<open>Constants\<close>

type_synonym u8 = "8 word"
type_synonym u32 = "32 word"
type_synonym bytes = "nat \<Rightarrow> u8"
type_synonym rng = "nat \<Rightarrow> u32"
type_synonym powf_fn = "rat \<Rightarrow> rat \<Rightarrow> rat"

definition MIN_LEN :: nat where "MIN_LEN = 3"
definition MAX_LEN :: nat where "MAX_LEN = 258"
definition NUM_LEN :: nat where "NUM_LEN = MAX_LEN - MIN_LEN + 1"
definition LEN_PER_CHUNK :: nat where "LEN_PER_CHUNK = 512"
definition SAMPLE_SIZE :: nat where "SAMPLE_SIZE = 16384"
definition BLOCK_SIZE :: nat where "BLOCK_SIZE = 1024 * 1024"

datatype error = AssertionFailed

subsection \<open>Floating point: values and conversions\<close>

text \<open>\<open>pow2 e\<close> is \<open>2\<^sup>e\<close> for an integer exponent.\<close>

definition pow2 :: "int \<Rightarrow> rat" where
  "pow2 e = (if 0 \<le> e then 2 ^ nat e else 1 / 2 ^ nat (- e))"

text \<open>The binary exponent \<open>\<lfloor>log\<^sub>2 x\<rfloor>\<close> of a positive rational.\<close>

definition ilog2 :: "rat \<Rightarrow> int" where
  "ilog2 x = (let (a, b) = quotient_of x; e = bitlen a - bitlen b
              in if pow2 e \<le> x then e else e - 1)"

text \<open>Rounding to the nearest integer, ties to the even one.\<close>

definition round_even :: "rat \<Rightarrow> int" where
  "round_even q = (let n = \<lfloor>q\<rfloor>; r = q - of_int n
                   in if r < 1 / 2 then n
                      else if 1 / 2 < r then n + 1
                      else if even n then n else n + 1)"

text \<open>
  Rounding to a binary format with \<open>p\<close> significant bits and least normal
  exponent \<open>emin\<close> (gradual underflow below it). Overflow to infinity is outside
  the model; the values converted by the program lie in \<open>[0, 1]\<close>.
\<close>

definition fp_round :: "nat \<Rightarrow> int \<Rightarrow> rat \<Rightarrow> rat" where
  "fp_round p emin x =
     (if x = 0 then 0
      else let e = max (ilog2 \<bar>x\<bar>) emin; ulp = pow2 (e - int p + 1)
           in of_int (round_even (x / ulp)) * ulp)"

definition to_float :: "rat \<Rightarrow> rat" where
  "to_float x = fp_round 24 (- 126) x"

definition to_double :: "rat \<Rightarrow> rat" where
  "to_double x = fp_round 53 (- 1022) x"

subsection \<open>The random source and \<^verbatim>\<open>rand_double\<close>\<close>

definition pcg32_random :: "rng \<Rightarrow> u32 \<times> rng" where
  "pcg32_random g = (g 0, \<lambda>n. g (Suc n))"

text \<open>
  \<^verbatim>\<open>return pcg32_random() / (UINT32_MAX + 1.0);\<close>
  Both operands are exact doubles and the divisor is \<open>2\<^sup>3\<^sup>2\<close>, so the
  quotient is exact.
\<close>

definition rand_double :: "rng \<Rightarrow> rat \<times> rng" where
  "rand_double g = (let (r, g') = pcg32_random g
                    in (of_nat (unat r) / (of_nat (2 ^ 32 - 1) + 1), g'))"

subsection \<open>Literal generators\<close>

text \<open>
  \<^verbatim>\<open>(unsigned char) (256 * powf((float) rand_double(), (float) lit_exp))\<close>:
  the product with 256 is exact; the conversion truncates and keeps the low
  eight bits.
\<close>

definition literal_of_draw :: "powf_fn \<Rightarrow> rat \<Rightarrow> rat \<Rightarrow> u8" where
  "literal_of_draw powf lit_exp u = word_of_int \<lfloor>256 * powf (to_float u) (to_float lit_exp)\<rfloor>"

function generate_literals_from_distribution_loop ::
  "powf_fn \<Rightarrow> rat \<Rightarrow> nat \<Rightarrow> nat \<Rightarrow> nat \<Rightarrow> bytes \<Rightarrow> rng \<Rightarrow> bytes \<times> rng" where
  "generate_literals_from_distribution_loop powf lit_exp ptr sz i m g =
     (if i < sz then
        (let (u, g') = rand_double g
         in generate_literals_from_distribution_loop powf lit_exp ptr sz (i + 1)
              (m(ptr + i := literal_of_draw powf lit_exp u)) g')
      else (m, g))"
  by pat_completeness auto
termination
  by (relation "measure (\<lambda>(powf, lit_exp, ptr, sz, i, m, g). sz - i)") auto

declare generate_literals_from_distribution_loop.simps [simp del]

definition generate_literals_from_distribution ::
  "powf_fn \<Rightarrow> bytes \<Rightarrow> nat \<Rightarrow> nat \<Rightarrow> rat \<Rightarrow> rng \<Rightarrow> bytes \<times> rng" where
  "generate_literals_from_distribution powf m ptr sz lit_exp g =
     generate_literals_from_distribution_loop powf lit_exp ptr sz 0 m g"

function generate_literals_from_samples_loop ::
  "bytes \<Rightarrow> nat \<Rightarrow> nat \<Rightarrow> nat \<Rightarrow> bytes \<Rightarrow> rng \<Rightarrow> bytes \<times> rng" where
  "generate_literals_from_samples_loop samples ptr sz i m g =
     (if i < sz then
        (let (r, g') = pcg32_random g
         in generate_literals_from_samples_loop samples ptr sz (i + 1)
              (m(ptr + i := samples (unat r mod SAMPLE_SIZE))) g')
      else (m, g))"
  by pat_completeness auto
termination
  by (relation "measure (\<lambda>(samples, ptr, sz, i, m, g). sz - i)") auto

declare generate_literals_from_samples_loop.simps [simp del]

definition generate_literals_from_samples ::
  "bytes \<Rightarrow> nat \<Rightarrow> nat \<Rightarrow> bytes \<Rightarrow> rng \<Rightarrow> bytes \<times> rng" where
  "generate_literals_from_samples m ptr sz samples g =
     generate_literals_from_samples_loop samples ptr sz 0 m g"

text \<open>\<^verbatim>\<open>samples\<close> is a pointer or \<^verbatim>\<open>NULL\<close>.\<close>

definition generate_literals ::
  "powf_fn \<Rightarrow> bytes \<Rightarrow> nat \<Rightarrow> nat \<Rightarrow> rat \<Rightarrow> bytes option \<Rightarrow> rng \<Rightarrow> bytes \<times> rng" where
  "generate_literals powf m ptr sz lit_exp samples g =
     (case samples of
        Some smp \<Rightarrow> generate_literals_from_samples m ptr sz smp g
      | None \<Rightarrow> generate_literals_from_distribution powf m ptr sz lit_exp g)"

subsection \<open>Length histogram\<close>

text \<open>
  \<^verbatim>\<open>(size_t) (NUM_LEN * powf((float) rand_double(), (float) len_exp))\<close>
\<close>

definition length_of_draw :: "powf_fn \<Rightarrow> rat \<Rightarrow> rat \<Rightarrow> nat" where
  "length_of_draw powf len_exp u =
     nat \<lfloor>of_nat NUM_LEN * powf (to_float u) (to_float len_exp)\<rfloor>"

function generate_lengths_loop ::
  "powf_fn \<Rightarrow> rat \<Rightarrow> nat \<Rightarrow> nat \<Rightarrow> (nat \<Rightarrow> nat) \<Rightarrow> rng \<Rightarrow> error + (nat \<Rightarrow> nat) \<times> rng" where
  "generate_lengths_loop powf len_exp num i len_freq g =
     (if i < num then
        (let (u, g') = rand_double g;
             len = length_of_draw powf len_exp u
         in if len < NUM_LEN
            then generate_lengths_loop powf len_exp num (i + 1)
                   (len_freq(len := len_freq len + 1)) g'
            else Inl AssertionFailed)
      else Inr (len_freq, g))"
  by pat_completeness auto
termination
  by (relation "measure (\<lambda>(powf, len_exp, num, i, len_freq, g). num - i)") auto

declare generate_lengths_loop.simps [simp del]

definition generate_lengths ::
  "powf_fn \<Rightarrow> (nat \<Rightarrow> nat) \<Rightarrow> nat \<Rightarrow> rat \<Rightarrow> rng \<Rightarrow> error + (nat \<Rightarrow> nat) \<times> rng" where
  "generate_lengths powf len_freq num len_exp g =
     generate_lengths_loop powf len_exp num 0
       (fold (\<lambda>i lf. lf(i := 0)) [0..<NUM_LEN] len_freq) g"


subsection \<open>Histogram refills put units into the table\<close>

lemma zero_fold_eq:
  "fold (\<lambda>i lf. lf(i := 0)) [0..<n] len_freq = (\<lambda>k. if k < n then 0 else len_freq k)"
  by (induction n) (auto simp: fun_eq_iff)

lemma sum_upd_bump:
  fixes f :: "nat \<Rightarrow> nat"
  assumes "k < n"
  shows "(\<Sum>j<n. (f(k := f k + 1)) j) = (\<Sum>j<n. f j) + 1"
proof -
  have fin: "finite {..<n}" and mem: "k \<in> {..<n}"
    using assms by simp_all
  have "(\<Sum>j<n. (f(k := f k + 1)) j) = (f k + 1) + (\<Sum>j\<in>{..<n} - {k}. (f(k := f k + 1)) j)"
    using sum.remove [OF fin mem, of "f(k := f k + 1)"] by simp
  also have "(\<Sum>j\<in>{..<n} - {k}. (f(k := f k + 1)) j) = (\<Sum>j\<in>{..<n} - {k}. f j)"
    by (rule sum.cong) auto
  also have "(f k + 1) + (\<Sum>j\<in>{..<n} - {k}. f j) = (\<Sum>j<n. f j) + 1"
    using sum.remove [OF fin mem, of f] by simp
  finally show ?thesis .
qed

lemma generate_lengths_loop_sum:
  "generate_lengths_loop powf len_exp num i len_freq g = Inr (lf', g') \<Longrightarrow>
   (\<Sum>k<NUM_LEN. lf' k) = (\<Sum>k<NUM_LEN. len_freq k) + (num - i)"
proof (induction powf len_exp num i len_freq g rule: generate_lengths_loop.induct)
  case (1 powf len_exp num i len_freq g)
  note unfold = generate_lengths_loop.simps [of powf len_exp num i len_freq g]
  show ?case
  proof (cases "i < num")
    case False
    with "1.prems" show ?thesis by (simp add: unfold)
  next
    case True
    obtain u g1 where rd: "rand_double g = (u, g1)"
      by (cases "rand_double g")
    define len where "len = length_of_draw powf len_exp u"
    from True "1.prems" rd have ok: "len < NUM_LEN"
      by (auto simp: unfold len_def Let_def split: if_splits)
    from True "1.prems" rd ok
    have rec: "generate_lengths_loop powf len_exp num (i + 1)
                 (len_freq(len := len_freq len + 1)) g1 = Inr (lf', g')"
      by (simp add: unfold len_def Let_def)
    have "(\<Sum>k<NUM_LEN. lf' k)
            = (\<Sum>k<NUM_LEN. (len_freq(len := len_freq len + 1)) k) + (num - (i + 1))"
      using "1.IH" [OF True rd [symmetric] refl len_def ok rec] .
    also have "\<dots> = (\<Sum>k<NUM_LEN. len_freq k) + 1 + (num - (i + 1))"
      by (simp only: sum_upd_bump [OF ok])
    finally show ?thesis using True by simp
  qed
qed

lemma generate_lengths_sum:
  "generate_lengths powf len_freq num len_exp g = Inr (lf', g') \<Longrightarrow>
   (\<Sum>k<NUM_LEN. lf' k) = num"
  using generate_lengths_loop_sum [of powf len_exp num 0 _ g lf' g']
  by (simp add: generate_lengths_def zero_fold_eq)

lemma generate_lengths_nonzero:
  assumes "generate_lengths powf len_freq LEN_PER_CHUNK len_exp g = Inr (lf', g')"
  shows "\<exists>k<NUM_LEN. lf' k \<noteq> 0"
proof (rule ccontr)
  assume "\<not> (\<exists>k<NUM_LEN. lf' k \<noteq> 0)"
  then have "(\<Sum>k<NUM_LEN. lf' k) = 0" by simp
  with generate_lengths_sum [OF assms] show False
    by (simp add: LEN_PER_CHUNK_def)
qed

subsection \<open>The composer \<^verbatim>\<open>generate_data_internal\<close>\<close>

text \<open>
  The emission log is ghost state: the program never reads it. It records, in
  order, each refill of the histogram (with the scratch buffer it produced),
  each length handed out by the histogram before clamping, and each run written
  to the destination with its offset and length.
\<close>

datatype event =
    Refill bytes
  | Issue nat
  | Literals nat nat
  | BreakLiteral nat
  | Match nat nat

text \<open>
  The locals of \<^verbatim>\<open>generate_data_internal\<close>, the destination \<open>mem\<close> and the
  generator. \<open>cursor_i\<close> and \<open>cursor_p\<close> are the source's \<^verbatim>\<open>i\<close> and \<^verbatim>\<open>p\<close>.
\<close>

record gen_state =
  len_freq :: "nat \<Rightarrow> nat"
  buffer :: bytes
  cur_len :: nat
  cursor_i :: nat
  cursor_p :: nat
  last_was_match :: bool
  mem :: bytes
  rng :: rng
  trace :: "event list"

text \<open>
  \<^verbatim>\<open>generate_literals(buffer, MAX_LEN, lit_exp, samples);\<close>
  \<^verbatim>\<open>generate_lengths(len_freq, LEN_PER_CHUNK, len_exp);\<close>
  \<^verbatim>\<open>cur_len = NUM_LEN;\<close>
\<close>

definition refill :: "powf_fn \<Rightarrow> rat \<Rightarrow> rat \<Rightarrow> bytes option \<Rightarrow> gen_state \<Rightarrow> error + gen_state" where
  "refill powf len_exp lit_exp samples s =
     (let (buf, g1) = generate_literals powf (buffer s) 0 MAX_LEN lit_exp samples (rng s)
      in case generate_lengths powf (len_freq s) LEN_PER_CHUNK len_exp g1 of
           Inl e \<Rightarrow> Inl e
         | Inr (lf, g2) \<Rightarrow>
             Inr (s\<lparr>len_freq := lf, buffer := buf, cur_len := NUM_LEN, rng := g2,
                    trace := trace s @ [Refill buf]\<rparr>))"

lemma refill_result:
  assumes "refill powf len_exp lit_exp samples s = Inr s'"
  shows "cur_len s' = NUM_LEN" and "\<exists>k<NUM_LEN. len_freq s' k \<noteq> 0"
    and "(\<Sum>k<NUM_LEN. len_freq s' k) = LEN_PER_CHUNK"
    and "cursor_i s' = cursor_i s" and "cursor_p s' = cursor_p s"
    and "mem s' = mem s" and "last_was_match s' = last_was_match s"
    and "\<exists>b. trace s' = trace s @ [Refill b] \<and> buffer s' = b"
  using assms generate_lengths_nonzero generate_lengths_sum
  by (auto simp: refill_def split: prod.splits sum.splits)

text \<open>
  The scan for the next non-empty bucket:
  \<^verbatim>\<open>while (len_freq[cur_len] == 0) { if (cur_len == 0) { ... } cur_len--; }\<close>
\<close>

function find_next_length ::
  "powf_fn \<Rightarrow> rat \<Rightarrow> rat \<Rightarrow> bytes option \<Rightarrow> gen_state \<Rightarrow> error + gen_state" where
  "find_next_length powf len_exp lit_exp samples s =
     (if len_freq s (cur_len s) = 0 then
        (case (if cur_len s = 0 then refill powf len_exp lit_exp samples s else Inr s) of
           Inl e \<Rightarrow> Inl e
         | Inr s' \<Rightarrow>
             find_next_length powf len_exp lit_exp samples (s'\<lparr>cur_len := cur_len s' - 1\<rparr>))
      else Inr s)"
  by pat_completeness auto
termination
proof (relation "inv_image (less_than <*lex*> less_than)
        (\<lambda>(powf, len_exp, lit_exp, samples, s).
           (if \<exists>k\<le>cur_len s. len_freq s k \<noteq> 0 then 0 else 1 :: nat, cur_len s))")
  show "wf (inv_image (less_than <*lex*> less_than)
        (\<lambda>(powf :: powf_fn, len_exp :: rat, lit_exp :: rat, samples :: bytes option, s).
           (if \<exists>k\<le>cur_len s. len_freq s k \<noteq> 0 then 0 else 1 :: nat, cur_len s)))"
    by (intro wf_inv_image wf_lex_prod wf_less_than)
next
  fix powf :: powf_fn and len_exp lit_exp :: rat and samples :: "bytes option"
    and s s' :: gen_state
  assume empty: "len_freq s (cur_len s) = 0"
    and step: "(if cur_len s = 0 then refill powf len_exp lit_exp samples s else Inr s) = Inr s'"
  show "((powf, len_exp, lit_exp, samples, s'\<lparr>cur_len := cur_len s' - 1\<rparr>),
         (powf, len_exp, lit_exp, samples, s))
        \<in> inv_image (less_than <*lex*> less_than)
            (\<lambda>(powf, len_exp, lit_exp, samples, s).
               (if \<exists>k\<le>cur_len s. len_freq s k \<noteq> 0 then 0 else 1 :: nat, cur_len s))"
  proof (cases "cur_len s = 0")
    case True
    with step have r: "refill powf len_exp lit_exp samples s = Inr s'" by simp
    obtain k where "k < NUM_LEN" "len_freq s' k \<noteq> 0"
      using refill_result(2) [OF r] by blast
    then have "\<exists>k\<le>cur_len s' - 1. len_freq s' k \<noteq> 0"
      using refill_result(1) [OF r] by (intro exI [of _ k]) simp
    moreover have "\<not> (\<exists>k\<le>cur_len s. len_freq s k \<noteq> 0)"
      using True empty by simp
    ultimately show ?thesis by auto
  next
    case False
    with step have eq: "s' = s" by simp
    have "(\<exists>k\<le>cur_len s - 1. len_freq s k \<noteq> 0) = (\<exists>k\<le>cur_len s. len_freq s k \<noteq> 0)"
    proof
      assume "\<exists>k\<le>cur_len s - 1. len_freq s k \<noteq> 0"
      then show "\<exists>k\<le>cur_len s. len_freq s k \<noteq> 0"
        by (meson diff_le_self order_trans)
    next
      assume "\<exists>k\<le>cur_len s. len_freq s k \<noteq> 0"
      then obtain k where k: "k \<le> cur_len s" "len_freq s k \<noteq> 0" by blast
      with empty have "k \<noteq> cur_len s" by auto
      with k have "k \<le> cur_len s - 1" by simp
      with k show "\<exists>k\<le>cur_len s - 1. len_freq s k \<noteq> 0" by blast
    qed
    with False eq show ?thesis by simp
  qed
qed

declare find_next_length.simps [simp del]

lemma find_next_length_frame:
  "find_next_length powf len_exp lit_exp samples s = Inr s' \<Longrightarrow>
   cursor_i s' = cursor_i s \<and> cursor_p s' = cursor_p s \<and> mem s' = mem s \<and>
   last_was_match s' = last_was_match s"
proof (induction powf len_exp lit_exp samples s rule: find_next_length.induct)
  case (1 powf len_exp lit_exp samples s)
  note unfold = find_next_length.simps [of powf len_exp lit_exp samples s]
  show ?case
  proof (cases "len_freq s (cur_len s) = 0")
    case False
    with "1.prems" show ?thesis by (simp add: unfold)
  next
    case True
    from True "1.prems" obtain s1 where
      s1: "(if cur_len s = 0 then refill powf len_exp lit_exp samples s else Inr s) = Inr s1"
      and rec: "find_next_length powf len_exp lit_exp samples (s1\<lparr>cur_len := cur_len s1 - 1\<rparr>) = Inr s'"
      by (auto simp: unfold split: sum.splits)
    have "cursor_i s1 = cursor_i s \<and> cursor_p s1 = cursor_p s \<and> mem s1 = mem s \<and>
          last_was_match s1 = last_was_match s"
      using s1 refill_result(4-7) [of powf len_exp lit_exp samples s s1]
      by (auto split: if_splits)
    with "1.IH" [OF True s1 rec] show ?thesis by simp
  qed
qed

text \<open>\<^verbatim>\<open>memcpy(p, buffer, len)\<close> from offset 0 of the source array.\<close>

definition memcpy :: "bytes \<Rightarrow> nat \<Rightarrow> bytes \<Rightarrow> nat \<Rightarrow> bytes" where
  "memcpy dst p src n = (\<lambda>a. if p \<le> a \<and> a < p + n then src (a - p) else dst a)"

text \<open>\<^verbatim>\<open>if (len > size - i) { len = size - i; }\<close>\<close>

definition clamp_len :: "nat \<Rightarrow> nat \<Rightarrow> nat \<Rightarrow> nat" where
  "clamp_len sz i len = (if len > sz - i then sz - i else len)"

text \<open>The literal branch: \<^verbatim>\<open>generate_literals(p, len, ...); last_was_match = 0;\<close>\<close>

definition emit_literals :: "powf_fn \<Rightarrow> rat \<Rightarrow> bytes option \<Rightarrow> nat \<Rightarrow> gen_state \<Rightarrow> gen_state" where
  "emit_literals powf lit_exp samples len s =
     (let (m, g) = generate_literals powf (mem s) (cursor_p s) len lit_exp samples (rng s)
      in s\<lparr>mem := m, rng := g, last_was_match := False,
            trace := trace s @ [Literals (cursor_i s) len]\<rparr>)"

text \<open>The forced literal: \<^verbatim>\<open>generate_literals(p, 1, ...); i++; p++;\<close>\<close>

definition break_literal :: "powf_fn \<Rightarrow> rat \<Rightarrow> bytes option \<Rightarrow> gen_state \<Rightarrow> gen_state" where
  "break_literal powf lit_exp samples s =
     (let (m, g) = generate_literals powf (mem s) (cursor_p s) 1 lit_exp samples (rng s)
      in s\<lparr>mem := m, rng := g, cursor_i := cursor_i s + 1, cursor_p := cursor_p s + 1,
            trace := trace s @ [BreakLiteral (cursor_i s)]\<rparr>)"

text \<open>The repeat run: \<^verbatim>\<open>memcpy(p, buffer, len); last_was_match = 1;\<close>\<close>

definition emit_match :: "nat \<Rightarrow> gen_state \<Rightarrow> gen_state" where
  "emit_match len s =
     s\<lparr>mem := memcpy (mem s) (cursor_p s) (buffer s) len, last_was_match := True,
       trace := trace s @ [Match (cursor_i s) len]\<rparr>"

text \<open>\<^verbatim>\<open>i += len; p += len;\<close>\<close>

definition advance :: "nat \<Rightarrow> gen_state \<Rightarrow> gen_state" where
  "advance len s = s\<lparr>cursor_i := cursor_i s + len, cursor_p := cursor_p s + len\<rparr>"

text \<open>
  \<^verbatim>\<open>len = MIN_LEN + cur_len; len_freq[cur_len]--;\<close>
\<close>

definition take_length :: "gen_state \<Rightarrow> gen_state" where
  "take_length s =
     s\<lparr>len_freq := (len_freq s)(cur_len s := len_freq s (cur_len s) - 1),
       trace := trace s @ [Issue (MIN_LEN + cur_len s)]\<rparr>"

text \<open>
  The body of \<^verbatim>\<open>while (i < size)\<close> after the scan: take the length, clamp
  it, draw, and emit a literal run or a repeat run.
\<close>

definition emit_run ::
  "powf_fn \<Rightarrow> nat \<Rightarrow> rat \<Rightarrow> rat \<Rightarrow> bytes option \<Rightarrow> gen_state \<Rightarrow> gen_state" where
  "emit_run powf sz ratio lit_exp samples s1 =
     (let len = MIN_LEN + cur_len s1;
          s2 = take_length s1;
          len = clamp_len sz (cursor_i s2) len;
          (u, g) = rand_double (rng s2);
          s3 = s2\<lparr>rng := g\<rparr>
      in if u < to_double (1 / ratio)
         then advance len (emit_literals powf lit_exp samples len s3)
         else (let s4 = (if last_was_match s3
                         then break_literal powf lit_exp samples s3 else s3);
                   len = (if last_was_match s3
                          then clamp_len sz (cursor_i s4) len else len)
               in advance len (emit_match len s4)))"

text \<open>One pass through the body of \<^verbatim>\<open>while (i < size)\<close>.\<close>

definition iteration ::
  "powf_fn \<Rightarrow> nat \<Rightarrow> rat \<Rightarrow> rat \<Rightarrow> rat \<Rightarrow> bytes option \<Rightarrow> gen_state \<Rightarrow> error + gen_state" where
  "iteration powf sz ratio len_exp lit_exp samples s0 =
     (case find_next_length powf len_exp lit_exp samples s0 of
        Inl e \<Rightarrow> Inl e
      | Inr s1 \<Rightarrow> Inr (emit_run powf sz ratio lit_exp samples s1))"

lemma cursor_i_blocks [simp]:
  "cursor_i (take_length s) = cursor_i s"
  "cursor_i (emit_literals powf lit_exp samples len s) = cursor_i s"
  "cursor_i (break_literal powf lit_exp samples s) = cursor_i s + 1"
  "cursor_i (emit_match len s) = cursor_i s"
  "cursor_i (advance len s) = cursor_i s + len"
  by (simp_all add: take_length_def emit_literals_def break_literal_def emit_match_def
        advance_def split: prod.splits)

lemma iteration_advances:
  assumes "iteration powf sz ratio len_exp lit_exp samples s = Inr s'"
    and "cursor_i s < sz"
  shows "cursor_i s < cursor_i s'"
proof -
  from assms(1) obtain s1 where
    f: "find_next_length powf len_exp lit_exp samples s = Inr s1"
    by (auto simp: iteration_def split: sum.splits)
  have c: "cursor_i s1 = cursor_i s"
    using find_next_length_frame [OF f] by simp
  have pos: "0 < clamp_len sz (cursor_i s) (MIN_LEN + cur_len s1)"
    using assms(2) by (simp add: clamp_len_def MIN_LEN_def)
  from assms(1) f c pos show ?thesis
    by (auto simp: iteration_def emit_run_def Let_def split: prod.splits if_splits)
qed

function gen_loop ::
  "powf_fn \<Rightarrow> nat \<Rightarrow> rat \<Rightarrow> rat \<Rightarrow> rat \<Rightarrow> bytes option \<Rightarrow> gen_state \<Rightarrow> error + gen_state" where
  "gen_loop powf sz ratio len_exp lit_exp samples s =
     (if cursor_i s < sz then
        (case iteration powf sz ratio len_exp lit_exp samples s of
           Inl e \<Rightarrow> Inl e
         | Inr s' \<Rightarrow> gen_loop powf sz ratio len_exp lit_exp samples s')
      else Inr s)"
  by pat_completeness auto
termination
proof (relation "measure (\<lambda>(powf, sz, ratio, len_exp, lit_exp, samples, s). sz - cursor_i s)")
  fix powf :: powf_fn and sz :: nat and ratio len_exp lit_exp :: rat
    and samples :: "bytes option" and s s' :: gen_state
  assume "cursor_i s < sz" and "iteration powf sz ratio len_exp lit_exp samples s = Inr s'"
  then show "((powf, sz, ratio, len_exp, lit_exp, samples, s'),
              (powf, sz, ratio, len_exp, lit_exp, samples, s))
             \<in> measure (\<lambda>(powf, sz, ratio, len_exp, lit_exp, samples, s). sz - cursor_i s)"
    using iteration_advances [of powf sz ratio len_exp lit_exp samples s s'] by simp
qed simp

declare gen_loop.simps [simp del]

text \<open>
  The arrays \<^verbatim>\<open>len_freq\<close> and \<^verbatim>\<open>buffer\<close> are uninitialised locals: their
  contents at entry are arbitrary and are parameters here. Only
  \<^verbatim>\<open>len_freq[0] = 0\<close> is set before the loop.
\<close>

definition init_state :: "(nat \<Rightarrow> nat) \<Rightarrow> bytes \<Rightarrow> bytes \<Rightarrow> nat \<Rightarrow> rng \<Rightarrow> gen_state" where
  "init_state junk_freq junk_buf m ptr g =
     \<lparr>len_freq = junk_freq(0 := 0), buffer = junk_buf, cur_len = 0, cursor_i = 0,
      cursor_p = ptr, last_was_match = False, mem = m, rng = g, trace = []\<rparr>"

definition generate_data_internal ::
  "powf_fn \<Rightarrow> (nat \<Rightarrow> nat) \<Rightarrow> bytes \<Rightarrow> bytes \<Rightarrow> nat \<Rightarrow> nat \<Rightarrow> rat \<Rightarrow> rat \<Rightarrow> rat \<Rightarrow>
   bytes option \<Rightarrow> rng \<Rightarrow> error + gen_state" where
  "generate_data_internal powf junk_freq junk_buf m ptr sz ratio len_exp lit_exp samples g =
     gen_loop powf sz ratio len_exp lit_exp samples (init_state junk_freq junk_buf m ptr g)"

subsection \<open>Entry points\<close>

definition lzdg_generate_data ::
  "powf_fn \<Rightarrow> (nat \<Rightarrow> nat) \<Rightarrow> bytes \<Rightarrow> bytes \<Rightarrow> nat \<Rightarrow> nat \<Rightarrow> rat \<Rightarrow> rat \<Rightarrow> rat \<Rightarrow>
   rng \<Rightarrow> error + gen_state" where
  "lzdg_generate_data powf junk_freq junk_buf m ptr sz ratio len_exp lit_exp g =
     generate_data_internal powf junk_freq junk_buf m ptr sz ratio len_exp lit_exp None g"

text \<open>
  The state of the loop of \<^verbatim>\<open>lzdg_generate_data_bulk\<close>: the local array
  \<^verbatim>\<open>samples\<close>, \<^verbatim>\<open>offs\<close>, the destination and the generator. \<open>b_blocks\<close> is
  ghost: for each block its offset, its size, its corpus and the emission log of
  its call to \<^verbatim>\<open>generate_data_internal\<close>.
\<close>

record bulk_state =
  b_samples :: bytes
  b_offs :: nat
  b_mem :: bytes
  b_rng :: rng
  b_blocks :: "(nat \<times> nat \<times> bytes \<times> event list) list"

text \<open>
  \<open>junk\<close> gives the arbitrary entry contents of the locals of the call made for
  the block at each offset.
\<close>

function bulk_loop ::
  "powf_fn \<Rightarrow> (nat \<Rightarrow> (nat \<Rightarrow> nat) \<times> bytes) \<Rightarrow> nat \<Rightarrow> nat \<Rightarrow> rat \<Rightarrow> rat \<Rightarrow> rat \<Rightarrow>
   bulk_state \<Rightarrow> error + bulk_state" where
  "bulk_loop powf junk ptr sz ratio len_exp lit_exp b =
     (if b_offs b < sz then
        (let num = (if sz - b_offs b > BLOCK_SIZE then BLOCK_SIZE else sz - b_offs b);
             (smp, g1) = generate_literals powf (b_samples b) 0 SAMPLE_SIZE lit_exp None (b_rng b)
         in case generate_data_internal powf (fst (junk (b_offs b))) (snd (junk (b_offs b)))
                   (b_mem b) (ptr + b_offs b) num ratio len_exp lit_exp (Some smp) g1 of
              Inl e \<Rightarrow> Inl e
            | Inr s \<Rightarrow>
                bulk_loop powf junk ptr sz ratio len_exp lit_exp
                  (b\<lparr>b_samples := smp, b_offs := b_offs b + num, b_mem := mem s,
                     b_rng := rng s,
                     b_blocks := b_blocks b @ [(b_offs b, num, smp, trace s)]\<rparr>))
      else Inr b)"
  by pat_completeness auto
termination
  by (relation "measure (\<lambda>(powf, junk, ptr, sz, ratio, len_exp, lit_exp, b). sz - b_offs b)")
     (auto simp: BLOCK_SIZE_def)

declare bulk_loop.simps [simp del]

definition lzdg_generate_data_bulk ::
  "powf_fn \<Rightarrow> (nat \<Rightarrow> (nat \<Rightarrow> nat) \<times> bytes) \<Rightarrow> bytes \<Rightarrow> bytes \<Rightarrow> nat \<Rightarrow> nat \<Rightarrow>
   rat \<Rightarrow> rat \<Rightarrow> rat \<Rightarrow> rng \<Rightarrow> error + bulk_state" where
  "lzdg_generate_data_bulk powf junk junk_samples m ptr sz ratio len_exp lit_exp g =
     bulk_loop powf junk ptr sz ratio len_exp lit_exp
       \<lparr>b_samples = junk_samples, b_offs = 0, b_mem = m, b_rng = g, b_blocks = []\<rparr>"

section \<open>Specification vocabulary\<close>

subsection \<open>The generator after a number of draws\<close>

definition shift :: "nat \<Rightarrow> rng \<Rightarrow> rng" where
  "shift n g = (\<lambda>k. g (n + k))"

text \<open>
  The byte a literal generator stores when the generator is in state \<open>g\<close>:
  \<^verbatim>\<open>samples[pcg32_random() % SAMPLE_SIZE]\<close> in corpus mode, the power-law value
  otherwise.
\<close>

definition literal_value :: "powf_fn \<Rightarrow> rat \<Rightarrow> bytes option \<Rightarrow> rng \<Rightarrow> u8" where
  "literal_value powf lit_exp samples g =
     (case samples of
        Some smp \<Rightarrow> smp (unat (fst (pcg32_random g)) mod SAMPLE_SIZE)
      | None \<Rightarrow> literal_of_draw powf lit_exp (fst (rand_double g)))"

subsection \<open>Fixtures for concrete runs\<close>

text \<open>
  A \<^verbatim>\<open>powf\<close> that is correctly rounded at non-negative integer exponents,
  and the generator that returns the same value at every draw.
\<close>

definition powf_nat_exp :: powf_fn where
  "powf_nat_exp x y = to_float (x ^ nat \<lfloor>y\<rfloor>)"

definition rng_const :: "u32 \<Rightarrow> rng" where
  "rng_const r = (\<lambda>_. r)"

text \<open>The generator that returns \<open>0xFFFFFFFF\<close> at draw \<open>n\<close> and \<open>0x80000000\<close> at
  every other draw.\<close>

definition rng_top_at :: "nat \<Rightarrow> rng" where
  "rng_top_at n = (\<lambda>k. if k = n then 0xFFFFFFFF else 0x80000000)"

text \<open>
  Arbitrary entry contents for the uninitialised locals and for the destination,
  and the log of a call (empty when the call ends in an error).
\<close>

definition fixture_freq :: "nat \<Rightarrow> nat" where "fixture_freq = (\<lambda>_. 7)"
definition fixture_buf :: bytes where "fixture_buf = (\<lambda>_. 9)"
definition fixture_mem :: bytes where "fixture_mem = (\<lambda>_. 0)"

definition log_of :: "error + gen_state \<Rightarrow> event list" where
  "log_of r = (case r of Inl e \<Rightarrow> [] | Inr s \<Rightarrow> trace s)"

subsection \<open>Runs on which the assertion of \<^verbatim>\<open>generate_lengths\<close> holds\<close>

text \<open>
  Each of the next \<open>n\<close> values the generator returns maps to a length class
  below \<^verbatim>\<open>NUM_LEN\<close>, whichever of them ends up being used for a length.
\<close>

definition draws_in_range :: "powf_fn \<Rightarrow> rat \<Rightarrow> nat \<Rightarrow> rng \<Rightarrow> bool" where
  "draws_in_range powf len_exp n g \<longleftrightarrow>
     (\<forall>k<n. length_of_draw powf len_exp (fst (rand_double (shift k g))) < NUM_LEN)"

text \<open>
  A pass through the main loop draws at most \<^verbatim>\<open>MAX_LEN + LEN_PER_CHUNK\<close> times
  for a refill, once for the branch, and once for each literal byte it writes;
  it writes at least one byte. A block draws \<^verbatim>\<open>SAMPLE_SIZE\<close> times more for
  its corpus.
\<close>

definition draws_per_byte :: nat where
  "draws_per_byte = MAX_LEN + LEN_PER_CHUNK + 2"

definition bulk_draws_per_byte :: nat where
  "bulk_draws_per_byte = SAMPLE_SIZE + draws_per_byte"

subsection \<open>Reading the emission log\<close>

text \<open>
  A property of the order of emission is a small state machine run over a
  log: \<open>chk st e\<close> is the state after entry \<open>e\<close>, or \<open>None\<close> when \<open>e\<close>
  breaks the property.
\<close>

fun run_log :: "('st \<Rightarrow> 'e \<Rightarrow> 'st option) \<Rightarrow> 'st \<Rightarrow> 'e list \<Rightarrow> 'st option" where
  "run_log chk st [] = Some st"
| "run_log chk st (e # es) = (case chk st e of None \<Rightarrow> None | Some st' \<Rightarrow> run_log chk st' es)"

text \<open>
  The writes tile the destination: each run starts at the offset where the
  previous one ended and ends at or before \<open>sz\<close>. The state is the offset
  reached.
\<close>

fun tiling :: "nat \<Rightarrow> nat \<Rightarrow> event \<Rightarrow> nat option" where
  "tiling sz k (Literals off len) = (if off = k \<and> k + len \<le> sz then Some (k + len) else None)"
| "tiling sz k (BreakLiteral off) = (if off = k \<and> k + 1 \<le> sz then Some (k + 1) else None)"
| "tiling sz k (Match off len) = (if off = k \<and> k + len \<le> sz then Some (k + len) else None)"
| "tiling sz k (Refill b) = Some k"
| "tiling sz k (Issue l) = Some k"

text \<open>
  The blocks of the bulk entry point tile the destination, each of at most
  \<^verbatim>\<open>BLOCK_SIZE\<close> bytes, and the writes of each block tile that block.
\<close>

fun block_tiling :: "nat \<Rightarrow> nat \<Rightarrow> nat \<times> nat \<times> bytes \<times> event list \<Rightarrow> nat option" where
  "block_tiling sz k (offs, num, smp, t) =
     (if offs = k \<and> 0 < num \<and> num \<le> BLOCK_SIZE \<and> k + num \<le> sz \<and>
         run_log (tiling num) 0 t = Some num
      then Some (k + num) else None)"

subsection \<open>Loop invariants\<close>

text \<open>Cursor, log and destination agree; nothing outside the part written so far
  has changed.\<close>

definition tiling_inv :: "nat \<Rightarrow> nat \<Rightarrow> bytes \<Rightarrow> gen_state \<Rightarrow> bool" where
  "tiling_inv sz ptr m s \<longleftrightarrow>
     run_log (tiling sz) 0 (trace s) = Some (cursor_i s) \<and> cursor_i s \<le> sz \<and>
     cursor_p s = ptr + cursor_i s \<and>
     (\<forall>a. a < ptr \<or> ptr + cursor_i s \<le> a \<longrightarrow> mem s a = m a)"

definition bulk_tiling_inv :: "nat \<Rightarrow> nat \<Rightarrow> bytes \<Rightarrow> bulk_state \<Rightarrow> bool" where
  "bulk_tiling_inv sz ptr m b \<longleftrightarrow>
     run_log (block_tiling sz) 0 (b_blocks b) = Some (b_offs b) \<and> b_offs b \<le> sz \<and>
     (\<forall>a. a < ptr \<or> ptr + b_offs b \<le> a \<longrightarrow> b_mem b a = m a)"

text \<open>
  Separation of repeat runs. The state is what the previous run was: a literal
  run (or nothing yet), a repeat run, or the forced literal byte written at an
  offset. A repeat run directly after a repeat run is rejected; a forced literal
  is accepted only directly after a repeat run and must be followed by a repeat
  run at the next offset; a literal run has at least one byte.
\<close>

datatype sep_state = NoRepeat | AfterRepeat | AfterBreak nat

fun separated :: "sep_state \<Rightarrow> event \<Rightarrow> sep_state option" where
  "separated (AfterBreak k) (Match off len) = (if off = k + 1 then Some AfterRepeat else None)"
| "separated (AfterBreak k) (Literals off len) = None"
| "separated (AfterBreak k) (BreakLiteral off) = None"
| "separated AfterRepeat (Match off len) = None"
| "separated AfterRepeat (BreakLiteral off) = Some (AfterBreak off)"
| "separated NoRepeat (BreakLiteral off) = None"
| "separated NoRepeat (Match off len) = Some AfterRepeat"
| "separated st (Literals off len) = (if 0 < len then Some NoRepeat else None)"
| "separated st (Refill b) = Some st"
| "separated st (Issue l) = Some st"

definition separated_inv :: "gen_state \<Rightarrow> bool" where
  "separated_inv s \<longleftrightarrow>
     run_log separated NoRepeat (trace s)
       = Some (if last_was_match s then AfterRepeat else NoRepeat)"

text \<open>Only literal runs have been written.\<close>

definition literal_only :: "gen_state \<Rightarrow> bool" where
  "literal_only s \<longleftrightarrow>
     \<not> last_was_match s \<and> (\<forall>off len. Match off len \<notin> set (trace s)) \<and>
     (\<forall>off. BreakLiteral off \<notin> set (trace s))"

text \<open>
  Order of issue within a refill cycle. The state is the last length issued in
  the current cycle (\<^verbatim>\<open>MAX_LEN\<close> when none yet) and the number of lengths
  issued in it. A length larger than the previous one of its cycle is rejected;
  a refill is accepted only when all \<^verbatim>\<open>LEN_PER_CHUNK\<close> units of the previous
  one have been issued. The first cycle starts with a refill.
\<close>

fun cycle_order :: "nat \<times> nat \<Rightarrow> event \<Rightarrow> (nat \<times> nat) option" where
  "cycle_order (ub, n) (Refill b) = (if n = LEN_PER_CHUNK then Some (MAX_LEN, 0) else None)"
| "cycle_order (ub, n) (Issue l) =
     (if l \<le> ub \<and> n < LEN_PER_CHUNK then Some (l, n + 1) else None)"
| "cycle_order st (Literals off len) = Some st"
| "cycle_order st (BreakLiteral off) = Some st"
| "cycle_order st (Match off len) = Some st"

definition cycle_inv :: "gen_state \<Rightarrow> bool" where
  "cycle_inv s \<longleftrightarrow>
     (\<exists>ub n. run_log cycle_order (MAX_LEN, LEN_PER_CHUNK) (trace s) = Some (ub, n) \<and>
        MIN_LEN + cur_len s \<le> ub \<and>
        n + (\<Sum>k\<le>cur_len s. len_freq s k) = LEN_PER_CHUNK) \<and>
     cur_len s < NUM_LEN"

text \<open>
  Run lengths. The state is the length last issued and whether the previous
  event was the forced literal. An issued length lies in
  \<open>[MIN_LEN, MAX_LEN]\<close>. A repeat run is at most as long as the length issued
  for it, is shorter only when it ends at \<open>sz\<close>, and is empty only directly
  after the forced literal.
\<close>

fun run_lengths :: "nat \<Rightarrow> nat \<times> bool \<Rightarrow> event \<Rightarrow> (nat \<times> bool) option" where
  "run_lengths sz (l, br) (Issue l') =
     (if MIN_LEN \<le> l' \<and> l' \<le> MAX_LEN then Some (l', False) else None)"
| "run_lengths sz (l, br) (BreakLiteral off) = Some (l, True)"
| "run_lengths sz (l, br) (Match off len) =
     (if len \<le> l \<and> (len < l \<longrightarrow> off + len = sz) \<and> (len = 0 \<longrightarrow> br)
      then Some (l, False) else None)"
| "run_lengths sz (l, br) (Literals off len) = Some (l, False)"
| "run_lengths sz (l, br) (Refill b) = Some (l, br)"

definition run_lengths_inv :: "nat \<Rightarrow> gen_state \<Rightarrow> bool" where
  "run_lengths_inv sz s \<longleftrightarrow>
     (\<exists>l. run_log (run_lengths sz) (MIN_LEN, False) (trace s) = Some (l, False)) \<and>
     cur_len s < NUM_LEN"

text \<open>
  Source of the repeat runs. The state is the scratch buffer of the current
  refill cycle; \<open>out\<close> is the destination, indexed from the start of the
  output. A repeat run of length \<open>len\<close> at offset \<open>off\<close> is accepted when
  \<open>len\<close> does not exceed the buffer and the bytes of the output at
  \<open>off, \<dots>, off + len - 1\<close> are the first \<open>len\<close> bytes of that buffer.
\<close>

fun copies_scratch :: "bytes \<Rightarrow> bytes \<Rightarrow> event \<Rightarrow> bytes option" where
  "copies_scratch out cur (Refill b) = Some b"
| "copies_scratch out cur (Match off len) =
     (if len \<le> MAX_LEN \<and> (\<forall>j<len. out (off + j) = cur j) then Some cur else None)"
| "copies_scratch out cur (Issue l) = Some cur"
| "copies_scratch out cur (Literals off len) = Some cur"
| "copies_scratch out cur (BreakLiteral off) = Some cur"

definition scratch_inv :: "nat \<Rightarrow> nat \<Rightarrow> bytes \<Rightarrow> bytes \<Rightarrow> gen_state \<Rightarrow> bool" where
  "scratch_inv sz ptr m jb s \<longleftrightarrow>
     tiling_inv sz ptr m s \<and> cur_len s < NUM_LEN \<and>
     run_log (copies_scratch (\<lambda>j. mem s (ptr + j))) jb (trace s) = Some (buffer s)"

text \<open>
  Literals of a block come from its corpus: every byte of the output written
  by a literal run or by the forced literal is \<open>smp i\<close> for some
  \<open>i < SAMPLE_SIZE\<close>.
\<close>

fun from_corpus :: "bytes \<Rightarrow> bytes \<Rightarrow> unit \<Rightarrow> event \<Rightarrow> unit option" where
  "from_corpus out smp u (Literals off len) =
     (if \<forall>j<len. \<exists>i<SAMPLE_SIZE. out (off + j) = smp i then Some () else None)"
| "from_corpus out smp u (BreakLiteral off) =
     (if \<exists>i<SAMPLE_SIZE. out off = smp i then Some () else None)"
| "from_corpus out smp u (Match off len) = Some ()"
| "from_corpus out smp u (Refill b) = Some ()"
| "from_corpus out smp u (Issue l) = Some ()"

definition corpus_inv :: "nat \<Rightarrow> nat \<Rightarrow> bytes \<Rightarrow> bytes \<Rightarrow> gen_state \<Rightarrow> bool" where
  "corpus_inv sz ptr m smp s \<longleftrightarrow>
     tiling_inv sz ptr m s \<and>
     run_log (from_corpus (\<lambda>j. mem s (ptr + j)) smp) () (trace s) = Some ()"

text \<open>
  The draws behind a log. A refill draws \<^verbatim>\<open>MAX_LEN\<close> values for the scratch
  buffer and \<^verbatim>\<open>LEN_PER_CHUNK\<close> for the lengths; the length issued in a pass
  is followed by the draw of \<^verbatim>\<open>rand_double() < 1.0 / ratio\<close>; a literal run
  draws one value for each byte, the forced literal one; a repeat run draws
  nothing.
\<close>

fun draws_of_event :: "event \<Rightarrow> nat" where
  "draws_of_event (Refill b) = MAX_LEN + LEN_PER_CHUNK"
| "draws_of_event (Issue l) = 1"
| "draws_of_event (Literals off len) = len"
| "draws_of_event (BreakLiteral off) = 1"
| "draws_of_event (Match off len) = 0"

definition draws_of :: "event list \<Rightarrow> nat" where
  "draws_of t = sum_list (map draws_of_event t)"

text \<open>
  The blocks of the bulk entry point. The state is the offset reached and the
  state \<open>g\<close> of the generator at the start of the block. A block starts where
  the previous one ended and has \<^verbatim>\<open>BLOCK_SIZE\<close> bytes, or what remains of
  \<open>sz\<close> when that is less. Its corpus is drawn anew: entry \<open>j\<close> is the
  power-law literal of the \<open>j\<close>-th draw from \<open>g\<close>, with \<open>lit_exp\<close>, for
  all \<^verbatim>\<open>SAMPLE_SIZE\<close> entries. Its runs tile the block and its literals come
  from its corpus. The next block starts from the generator as this block
  leaves it: behind the \<^verbatim>\<open>SAMPLE_SIZE\<close> draws of the corpus and the draws of
  the block's log.
\<close>

definition block_shape ::
  "powf_fn \<Rightarrow> rat \<Rightarrow> nat \<Rightarrow> nat \<Rightarrow> rng \<Rightarrow> nat \<times> nat \<times> bytes \<times> event list \<Rightarrow> bool" where
  "block_shape powf lit_exp sz k g blk =
     (case blk of (offs, num, smp, t) \<Rightarrow>
        offs = k \<and> 0 < num \<and>
        num = (if sz - k > BLOCK_SIZE then BLOCK_SIZE else sz - k) \<and>
        (\<forall>j<SAMPLE_SIZE.
           smp j = literal_of_draw powf lit_exp (fst (rand_double (shift j g)))) \<and>
        run_log (tiling num) 0 t = Some num)"

fun block_corpus ::
  "powf_fn \<Rightarrow> rat \<Rightarrow> nat \<Rightarrow> bytes \<Rightarrow> nat \<times> rng \<Rightarrow> nat \<times> nat \<times> bytes \<times> event list \<Rightarrow>
   (nat \<times> rng) option" where
  "block_corpus powf lit_exp sz out (k, g) (offs, num, smp, t) =
     (if block_shape powf lit_exp sz k g (offs, num, smp, t) \<and>
         run_log (from_corpus (\<lambda>j. out (offs + j)) smp) () t = Some ()
      then Some (k + num, shift (SAMPLE_SIZE + draws_of t) g) else None)"

definition bulk_corpus_inv ::
  "powf_fn \<Rightarrow> rat \<Rightarrow> nat \<Rightarrow> nat \<Rightarrow> rng \<Rightarrow> bulk_state \<Rightarrow> bool" where
  "bulk_corpus_inv powf lit_exp sz ptr g b \<longleftrightarrow>
     run_log (block_corpus powf lit_exp sz (\<lambda>j. b_mem b (ptr + j))) (0, g) (b_blocks b)
       = Some (b_offs b, b_rng b) \<and>
     b_offs b \<le> sz"

text \<open>
  Counting passes: every pass through the main loop issues exactly one length,
  and a pass refills at most once.
\<close>

fun is_issue :: "event \<Rightarrow> bool" where
  "is_issue (Issue l) = True"
| "is_issue (Refill b) = False"
| "is_issue (Literals off len) = False"
| "is_issue (BreakLiteral off) = False"
| "is_issue (Match off len) = False"

fun is_refill :: "event \<Rightarrow> bool" where
  "is_refill (Refill b) = True"
| "is_refill (Issue l) = False"
| "is_refill (Literals off len) = False"
| "is_refill (BreakLiteral off) = False"
| "is_refill (Match off len) = False"

definition passes_inv :: "gen_state \<Rightarrow> bool" where
  "passes_inv s \<longleftrightarrow>
     length (filter is_issue (trace s)) \<le> cursor_i s \<and>
     length (filter is_refill (trace s)) \<le> length (filter is_issue (trace s))"

text \<open>The runs of a log, without the refills and the issued lengths.\<close>

fun is_write :: "event \<Rightarrow> bool" where
  "is_write (Refill b) = False"
| "is_write (Issue l) = False"
| "is_write (Literals off len) = True"
| "is_write (BreakLiteral off) = True"
| "is_write (Match off len) = True"

subsection \<open>Two runs from the same generator state\<close>

text \<open>The bytes of the destination that a call is asked to fill.\<close>

definition output_bytes :: "nat \<Rightarrow> nat \<Rightarrow> bytes \<Rightarrow> u8 list" where
  "output_bytes ptr sz m = map (\<lambda>j. m (ptr + j)) [0..<sz]"

text \<open>
  Two corpora are the same to the program when they agree on the
  \<^verbatim>\<open>SAMPLE_SIZE\<close> entries of the array.
\<close>

definition same_corpus :: "bytes option \<Rightarrow> bytes option \<Rightarrow> bool" where
  "same_corpus x y \<longleftrightarrow>
     (case (x, y) of
        (None, None) \<Rightarrow> True
      | (Some a, Some b) \<Rightarrow> (\<forall>i<SAMPLE_SIZE. a i = b i)
      | _ \<Rightarrow> False)"

text \<open>
  Two states of the main loop that are at the same point: same cursors, flag
  and generator, and the same bytes in the part of the destination written so
  far.
\<close>

definition in_step :: "nat \<Rightarrow> gen_state \<Rightarrow> gen_state \<Rightarrow> bool" where
  "in_step ptr s1 s2 \<longleftrightarrow>
     cur_len s1 = cur_len s2 \<and> cursor_i s1 = cursor_i s2 \<and>
     cursor_p s1 = ptr + cursor_i s1 \<and> cursor_p s2 = ptr + cursor_i s2 \<and>
     last_was_match s1 = last_was_match s2 \<and> rng s1 = rng s2 \<and>
     (\<forall>a. ptr \<le> a \<and> a < ptr + cursor_i s1 \<longrightarrow> mem s1 a = mem s2 a)"

text \<open>The histogram and the scratch buffer agree inside their arrays.\<close>

definition tables_agree :: "gen_state \<Rightarrow> gen_state \<Rightarrow> bool" where
  "tables_agree s1 s2 \<longleftrightarrow>
     (\<forall>k<NUM_LEN. len_freq s1 k = len_freq s2 k) \<and>
     (\<forall>j<MAX_LEN. buffer s1 j = buffer s2 j) \<and> cur_len s1 < NUM_LEN"

text \<open>At entry the arrays are arbitrary, but the first scan refills them.\<close>

definition at_entry :: "gen_state \<Rightarrow> gen_state \<Rightarrow> bool" where
  "at_entry s1 s2 \<longleftrightarrow> cur_len s1 = 0 \<and> len_freq s1 0 = 0 \<and> len_freq s2 0 = 0"

text \<open>The same for two states of the block loop.\<close>

definition bulk_in_step :: "nat \<Rightarrow> bulk_state \<Rightarrow> bulk_state \<Rightarrow> bool" where
  "bulk_in_step ptr b1 b2 \<longleftrightarrow>
     b_offs b1 = b_offs b2 \<and> b_rng b1 = b_rng b2 \<and>
     (\<forall>a. ptr \<le> a \<and> a < ptr + b_offs b1 \<longrightarrow> b_mem b1 a = b_mem b2 a)"

text \<open>
  What a caller observes of a call: the error, or the \<open>sz\<close> bytes of the
  destination together with the state in which the generator is left.
\<close>

definition data_result :: "nat \<Rightarrow> nat \<Rightarrow> error + gen_state \<Rightarrow> error + u8 list \<times> rng" where
  "data_result ptr sz r = map_sum id (\<lambda>s. (output_bytes ptr sz (mem s), rng s)) r"

definition bulk_result :: "nat \<Rightarrow> nat \<Rightarrow> error + bulk_state \<Rightarrow> error + u8 list \<times> rng" where
  "bulk_result ptr sz r = map_sum id (\<lambda>b. (output_bytes ptr sz (b_mem b), b_rng b)) r"

subsection \<open>Runs at the borders of the blocks\<close>

text \<open>The blocks logged by a call of \<^verbatim>\<open>lzdg_generate_data_bulk\<close>, none when the
  call did not return.\<close>

definition blocks_of :: "error + bulk_state \<Rightarrow> (nat \<times> nat \<times> bytes \<times> event list) list" where
  "blocks_of r = (case r of Inl e \<Rightarrow> [] | Inr b \<Rightarrow> b_blocks b)"

text \<open>Of the log of a block: its offset, its size, the first write and the last
  event.\<close>

definition block_ends :: "nat \<times> nat \<times> bytes \<times> event list \<Rightarrow> nat \<times> nat \<times> event \<times> event" where
  "block_ends blk = (case blk of (offs, num, smp, t) \<Rightarrow> (offs, num, hd (filter is_write t), last t))"

text \<open>
  With a generator that always returns \<open>0xFFF00000\<close> and ratio 2 every pass
  takes the repeat branch with length 258: the repeat runs start at the
  multiples of 259, each one after the first behind a forced literal.
\<close>

definition top_inv :: "nat \<Rightarrow> gen_state \<Rightarrow> bool" where
  "top_inv sz t \<longleftrightarrow>
     rng t = rng_const 0xFFF00000 \<and>
     (cursor_i t = 0 \<and> \<not> last_was_match t \<and> cur_len t = 0 \<and> len_freq t 0 = 0 \<and>
        filter is_write (trace t) = [] \<or>
      last_was_match t \<and> cur_len t = 255 \<and> (\<forall>k<255. len_freq t k = 0) \<and>
        filter is_write (trace t) \<noteq> [] \<and>
        hd (filter is_write (trace t)) = Match 0 (min 258 sz) \<and>
        (\<exists>i. last (trace t) = Match i (cursor_i t - i) \<and> i mod 259 = 0 \<and> i \<le> cursor_i t \<and>
             cursor_i t = min sz (i + 258)))"

section \<open>Supporting lemmas\<close>

lemma shift_0 [simp]: "shift 0 g = g"
  by (simp add: shift_def)

lemma shift_shift [simp]: "shift a (shift b g) = shift (a + b) g"
  by (simp add: shift_def fun_eq_iff add.assoc add.commute add.left_commute)

lemma pcg32_random_shift: "pcg32_random g = (g 0, shift 1 g)"
  by (simp add: pcg32_random_def shift_def)

lemma rand_double_shift: "snd (rand_double g) = shift 1 g"
  by (simp add: rand_double_def pcg32_random_shift)

subsection \<open>Closed forms of the literal generators\<close>

lemma distribution_loop_closed:
  "generate_literals_from_distribution_loop powf lit_exp ptr sz i m g =
     ((\<lambda>a. if ptr + i \<le> a \<and> a < ptr + sz
            then literal_of_draw powf lit_exp (fst (rand_double (shift (a - (ptr + i)) g)))
            else m a),
      shift (sz - i) g)"
proof (induction powf lit_exp ptr sz i m g rule: generate_literals_from_distribution_loop.induct)
  case (1 powf lit_exp ptr sz i m g)
  note unfold = generate_literals_from_distribution_loop.simps [of powf lit_exp ptr sz i m g]
  show ?case
  proof (cases "i < sz")
    case False
    then show ?thesis by (auto simp: unfold fun_eq_iff)
  next
    case True
    obtain u g1 where rd: "rand_double g = (u, g1)"
      by (cases "rand_double g")
    then have g1: "g1 = shift 1 g" and u: "u = fst (rand_double g)"
      using rand_double_shift [of g] by simp_all
    have sh: "shift (sz - (i + 1)) g1 = shift (sz - i) g"
      using True by (simp add: g1 Suc_diff_Suc)
    have "generate_literals_from_distribution_loop powf lit_exp ptr sz i m g =
          generate_literals_from_distribution_loop powf lit_exp ptr sz (i + 1)
            (m(ptr + i := literal_of_draw powf lit_exp u)) g1"
      using True rd by (simp add: unfold)
    also have "\<dots> =
      ((\<lambda>a. if ptr + (i + 1) \<le> a \<and> a < ptr + sz
             then literal_of_draw powf lit_exp (fst (rand_double (shift (a - (ptr + (i + 1))) g1)))
             else (m(ptr + i := literal_of_draw powf lit_exp u)) a),
       shift (sz - (i + 1)) g1)"
      by (rule "1.IH" [OF True rd [symmetric] refl])
    also have "\<dots> =
      ((\<lambda>a. if ptr + i \<le> a \<and> a < ptr + sz
            then literal_of_draw powf lit_exp (fst (rand_double (shift (a - (ptr + i)) g)))
            else m a),
      shift (sz - i) g)"
    proof -
      have eq: "shift (a - (ptr + (i + 1))) g1 = shift (a - (ptr + i)) g"
        if "ptr + (i + 1) \<le> a" for a
      proof -
        from that have "a - (ptr + (i + 1)) + 1 = a - (ptr + i)" by simp
        then show ?thesis unfolding g1 shift_shift by simp
      qed
      have "(if ptr + (i + 1) \<le> a \<and> a < ptr + sz
             then literal_of_draw powf lit_exp (fst (rand_double (shift (a - (ptr + (i + 1))) g1)))
             else (m(ptr + i := literal_of_draw powf lit_exp u)) a) =
            (if ptr + i \<le> a \<and> a < ptr + sz
             then literal_of_draw powf lit_exp (fst (rand_double (shift (a - (ptr + i)) g)))
             else m a)" for a
      proof (cases "ptr + (i + 1) \<le> a")
        case True
        then show ?thesis using eq [OF True] by simp
      next
        case False
        then show ?thesis using \<open>i < sz\<close> by (auto simp: u)
      qed
      then show ?thesis by (simp only: sh)
    qed
    finally show ?thesis .
  qed
qed

lemma samples_loop_closed:
  "generate_literals_from_samples_loop samples ptr sz i m g =
     ((\<lambda>a. if ptr + i \<le> a \<and> a < ptr + sz
            then samples (unat (fst (pcg32_random (shift (a - (ptr + i)) g))) mod SAMPLE_SIZE)
            else m a),
      shift (sz - i) g)"
proof (induction samples ptr sz i m g rule: generate_literals_from_samples_loop.induct)
  case (1 samples ptr sz i m g)
  note unfold = generate_literals_from_samples_loop.simps [of samples ptr sz i m g]
  show ?case
  proof (cases "i < sz")
    case False
    then show ?thesis by (auto simp: unfold fun_eq_iff)
  next
    case True
    obtain r g1 where rd: "pcg32_random g = (r, g1)"
      by (cases "pcg32_random g")
    then have g1: "g1 = shift 1 g" and r: "r = fst (pcg32_random g)"
      using pcg32_random_shift [of g] by simp_all
    have sh: "shift (sz - (i + 1)) g1 = shift (sz - i) g"
      using True by (simp add: g1 Suc_diff_Suc)
    have "generate_literals_from_samples_loop samples ptr sz i m g =
          generate_literals_from_samples_loop samples ptr sz (i + 1)
            (m(ptr + i := samples (unat r mod SAMPLE_SIZE))) g1"
      using True rd by (simp add: unfold)
    also have "\<dots> =
      ((\<lambda>a. if ptr + (i + 1) \<le> a \<and> a < ptr + sz
             then samples (unat (fst (pcg32_random (shift (a - (ptr + (i + 1))) g1))) mod SAMPLE_SIZE)
             else (m(ptr + i := samples (unat r mod SAMPLE_SIZE))) a),
       shift (sz - (i + 1)) g1)"
      by (rule "1.IH" [OF True rd [symmetric] refl])
    also have "\<dots> =
      ((\<lambda>a. if ptr + i \<le> a \<and> a < ptr + sz
            then samples (unat (fst (pcg32_random (shift (a - (ptr + i)) g))) mod SAMPLE_SIZE)
            else m a),
      shift (sz - i) g)"
    proof -
      have eq: "shift (a - (ptr + (i + 1))) g1 = shift (a - (ptr + i)) g"
        if "ptr + (i + 1) \<le> a" for a
      proof -
        from that have "a - (ptr + (i + 1)) + 1 = a - (ptr + i)" by simp
        then show ?thesis unfolding g1 shift_shift by simp
      qed
      have "(if ptr + (i + 1) \<le> a \<and> a < ptr + sz
             then samples (unat (fst (pcg32_random (shift (a - (ptr + (i + 1))) g1))) mod SAMPLE_SIZE)
             else (m(ptr + i := samples (unat r mod SAMPLE_SIZE))) a) =
            (if ptr + i \<le> a \<and> a < ptr + sz
             then samples (unat (fst (pcg32_random (shift (a - (ptr + i)) g))) mod SAMPLE_SIZE)
             else m a)" for a
      proof (cases "ptr + (i + 1) \<le> a")
        case True
        then show ?thesis using eq [OF True] by simp
      next
        case False
        then show ?thesis using \<open>i < sz\<close> by (auto simp: r)
      qed
      then show ?thesis by (simp only: sh)
    qed
    finally show ?thesis .
  qed
qed

lemma generate_literals_closed:
  "generate_literals powf m ptr sz lit_exp samples g =
     ((\<lambda>a. if ptr \<le> a \<and> a < ptr + sz
            then literal_value powf lit_exp samples (shift (a - ptr) g)
            else m a),
      shift sz g)"
  by (cases samples)
     (simp_all add: generate_literals_def generate_literals_from_distribution_def
        generate_literals_from_samples_def distribution_loop_closed samples_loop_closed
        literal_value_def cong: if_cong)

subsection \<open>Evaluated conversions\<close>

lemma to_float_top_draw: "to_float (4294967295 / 4294967296) = 1"
  by code_simp

lemma to_float_1: "to_float 1 = 1"
  by code_simp

lemma to_float_3: "to_float 3 = 3"
  by code_simp

lemma to_double_1: "to_double 1 = 1"
  by code_simp

lemma powf_nat_exp_1: "powf_nat_exp 1 y = 1"
  by (simp add: powf_nat_exp_def to_float_1)

lemma shift_rng_const [simp]: "shift n (rng_const r) = rng_const r"
  by (simp add: shift_def rng_const_def)

lemma rand_double_value: "fst (rand_double g) = of_nat (unat (g 0)) / 4294967296"
  by (simp add: rand_double_def pcg32_random_def)

subsection \<open>The scan for the next length\<close>

lemma refill_cur_len [simp]:
  "refill powf len_exp lit_exp samples (s\<lparr>cur_len := c\<rparr>) = refill powf len_exp lit_exp samples s"
  by (simp add: refill_def split: prod.splits sum.splits)

lemma generate_literals_closed0:
  "generate_literals powf m 0 sz lit_exp samples g =
     ((\<lambda>a. if a < sz then literal_value powf lit_exp samples (shift a g) else m a),
      shift sz g)"
  by (simp add: generate_literals_closed cong: if_cong)

lemma refill_closed:
  "refill powf len_exp lit_exp samples s = Inr s' \<Longrightarrow>
   \<exists>lf. generate_lengths powf (len_freq s) LEN_PER_CHUNK len_exp (shift MAX_LEN (rng s))
          = Inr (lf, rng s') \<and>
        s' = s\<lparr>len_freq := lf,
               buffer := (\<lambda>a. if a < MAX_LEN
                                then literal_value powf lit_exp samples (shift a (rng s))
                                else buffer s a),
               cur_len := NUM_LEN, rng := rng s',
               trace := trace s @ [Refill (\<lambda>a. if a < MAX_LEN
                                then literal_value powf lit_exp samples (shift a (rng s))
                                else buffer s a)]\<rparr>"
  by (auto simp: refill_def generate_literals_closed0 split: sum.splits)

text \<open>What the scan for the next non-empty bucket does: it either walks down the
  current table, or finds it exhausted, refills once and walks down the new table.\<close>

lemma find_next_length_cases:
  assumes "find_next_length powf len_exp lit_exp samples s = Inr s'"
  shows "(cur_len s' \<le> cur_len s \<and> s' = s\<lparr>cur_len := cur_len s'\<rparr> \<and>
          (\<forall>k. cur_len s' < k \<and> k \<le> cur_len s \<longrightarrow> len_freq s k = 0) \<and>
          len_freq s (cur_len s') \<noteq> 0)
       \<or> (\<exists>s1. (\<forall>k\<le>cur_len s. len_freq s k = 0) \<and>
            refill powf len_exp lit_exp samples s = Inr s1 \<and>
            cur_len s' < NUM_LEN \<and> s' = s1\<lparr>cur_len := cur_len s'\<rparr> \<and>
            (\<forall>k. cur_len s' < k \<and> k < NUM_LEN \<longrightarrow> len_freq s1 k = 0) \<and>
            len_freq s1 (cur_len s') \<noteq> 0)"
  using assms
proof (induction powf len_exp lit_exp samples s rule: find_next_length.induct)
  case (1 powf len_exp lit_exp samples s)
  note unfold = find_next_length.simps [of powf len_exp lit_exp samples s]
  show ?case
  proof (cases "len_freq s (cur_len s) = 0")
    case False
    with "1.prems" have "s' = s" by (simp add: unfold)
    with False show ?thesis by simp
  next
    case empty: True
    show ?thesis
    proof (cases "cur_len s = 0")
      case False
      let ?t = "s\<lparr>cur_len := cur_len s - 1\<rparr>"
      from empty False "1.prems"
      have rec: "find_next_length powf len_exp lit_exp samples ?t = Inr s'"
        by (simp add: unfold)
      have st: "(if cur_len s = 0 then refill powf len_exp lit_exp samples s else Inr s) = Inr s"
        using False by simp
      from "1.IH" [OF empty st rec]
      consider (scan) "cur_len s' \<le> cur_len ?t" "s' = ?t\<lparr>cur_len := cur_len s'\<rparr>"
          "\<forall>k. cur_len s' < k \<and> k \<le> cur_len ?t \<longrightarrow> len_freq ?t k = 0"
          "len_freq ?t (cur_len s') \<noteq> 0"
        | (refilled) s1 where "\<forall>k\<le>cur_len ?t. len_freq ?t k = 0"
          "refill powf len_exp lit_exp samples ?t = Inr s1"
          "cur_len s' < NUM_LEN" "s' = s1\<lparr>cur_len := cur_len s'\<rparr>"
          "\<forall>k. cur_len s' < k \<and> k < NUM_LEN \<longrightarrow> len_freq s1 k = 0"
          "len_freq s1 (cur_len s') \<noteq> 0"
        by blast
      then show ?thesis
      proof cases
        case scan
        have "\<forall>k. cur_len s' < k \<and> k \<le> cur_len s \<longrightarrow> len_freq s k = 0"
        proof (intro allI impI)
          fix k assume k: "cur_len s' < k \<and> k \<le> cur_len s"
          show "len_freq s k = 0"
          proof (cases "k = cur_len s")
            case True
            with empty show ?thesis by simp
          next
            case False
            with k have "k \<le> cur_len s - 1" by arith
            with k scan(3) show ?thesis by simp
          qed
        qed
        moreover have "cur_len s' \<le> cur_len s"
          using scan(1) by simp
        moreover have "s' = s\<lparr>cur_len := cur_len s'\<rparr>"
          using scan(2) by simp
        moreover have "len_freq s (cur_len s') \<noteq> 0"
          using scan(4) by simp
        ultimately show ?thesis by blast
      next
        case refilled
        have "\<forall>k\<le>cur_len s. len_freq s k = 0"
        proof (intro allI impI)
          fix k assume k: "k \<le> cur_len s"
          show "len_freq s k = 0"
          proof (cases "k = cur_len s")
            case True
            with empty show ?thesis by simp
          next
            case False
            with k have "k \<le> cur_len s - 1" by arith
            with refilled(1) show ?thesis by simp
          qed
        qed
        with refilled show ?thesis by auto
      qed
    next
      case zero: True
      from empty zero "1.prems" obtain s1 where
        r: "refill powf len_exp lit_exp samples s = Inr s1"
        and rec: "find_next_length powf len_exp lit_exp samples (s1\<lparr>cur_len := cur_len s1 - 1\<rparr>) = Inr s'"
        by (auto simp: unfold split: sum.splits)
      let ?t = "s1\<lparr>cur_len := cur_len s1 - 1\<rparr>"
      have st: "(if cur_len s = 0 then refill powf len_exp lit_exp samples s else Inr s) = Inr s1"
        using zero r by simp
      have top: "cur_len ?t = NUM_LEN - 1"
        using refill_result(1) [OF r] by simp
      obtain j where j: "j < NUM_LEN" "len_freq s1 j \<noteq> 0"
        using refill_result(2) [OF r] by blast
      then have nonempty: "\<not> (\<forall>k\<le>cur_len ?t. len_freq ?t k = 0)"
        using top by (auto intro!: exI [of _ j])
      from "1.IH" [OF empty st rec] nonempty
      have scan: "cur_len s' \<le> cur_len ?t" "s' = ?t\<lparr>cur_len := cur_len s'\<rparr>"
          "\<forall>k. cur_len s' < k \<and> k \<le> cur_len ?t \<longrightarrow> len_freq ?t k = 0"
          "len_freq ?t (cur_len s') \<noteq> 0"
        by blast+
      have "\<forall>k\<le>cur_len s. len_freq s k = 0"
        using zero empty by simp
      moreover have "cur_len s' < NUM_LEN"
        using scan(1) top j(1) by simp
      moreover have "s' = s1\<lparr>cur_len := cur_len s'\<rparr>"
        using scan(2) by simp
      moreover have "\<forall>k. cur_len s' < k \<and> k < NUM_LEN \<longrightarrow> len_freq s1 k = 0"
        using scan(3) top by auto
      moreover have "len_freq s1 (cur_len s') \<noteq> 0"
        using scan(4) by simp
      ultimately show ?thesis using r by blast
    qed
  qed
qed

lemma find_next_length_elim:
  assumes "find_next_length powf len_exp lit_exp samples s = Inr s'"
  obtains (scan) c where "c \<le> cur_len s" and "s' = s\<lparr>cur_len := c\<rparr>"
      and "\<forall>k. c < k \<and> k \<le> cur_len s \<longrightarrow> len_freq s k = 0" and "len_freq s c \<noteq> 0"
    | (refilled) s1 c where "\<forall>k\<le>cur_len s. len_freq s k = 0"
      and "refill powf len_exp lit_exp samples s = Inr s1"
      and "c < NUM_LEN" and "s' = s1\<lparr>cur_len := c\<rparr>"
      and "\<forall>k. c < k \<and> k < NUM_LEN \<longrightarrow> len_freq s1 k = 0" and "len_freq s1 c \<noteq> 0"
  using find_next_length_cases [OF assms] by blast

lemma find_next_length_found:
  "len_freq s (cur_len s) \<noteq> 0 \<Longrightarrow> find_next_length powf len_exp lit_exp samples s = Inr s"
  by (subst find_next_length.simps) simp

lemma find_next_length_refill:
  "len_freq s (cur_len s) = 0 \<Longrightarrow> cur_len s = 0 \<Longrightarrow>
   find_next_length powf len_exp lit_exp samples s =
     (case refill powf len_exp lit_exp samples s of
        Inl e \<Rightarrow> Inl e
      | Inr s' \<Rightarrow> find_next_length powf len_exp lit_exp samples (s'\<lparr>cur_len := cur_len s' - 1\<rparr>))"
  by (subst find_next_length.simps) simp

lemma find_next_length_down:
  "len_freq s (cur_len s) = 0 \<Longrightarrow> cur_len s \<noteq> 0 \<Longrightarrow>
   find_next_length powf len_exp lit_exp samples s =
     find_next_length powf len_exp lit_exp samples (s\<lparr>cur_len := cur_len s - 1\<rparr>)"
  by (subst find_next_length.simps) simp

subsection \<open>The emission step and the generator\<close>

lemmas block_defs =
  take_length_def emit_literals_def break_literal_def emit_match_def advance_def

lemma rand_double_pair: "rand_double g = (fst (rand_double g), shift 1 g)"
  using rand_double_shift [of g] by (cases "rand_double g") simp

lemma emit_run_unfold:
  "emit_run powf sz ratio lit_exp samples s1 =
     (let s3 = (take_length s1)\<lparr>rng := shift 1 (rng s1)\<rparr>;
          len = clamp_len sz (cursor_i s1) (MIN_LEN + cur_len s1);
          len' = clamp_len sz (cursor_i s1 + 1) len
      in if fst (rand_double (rng s1)) < to_double (1 / ratio)
         then advance len (emit_literals powf lit_exp samples len s3)
         else if last_was_match s1
         then advance len' (emit_match len' (break_literal powf lit_exp samples s3))
         else advance len (emit_match len s3))"
proof -
  have rd: "rand_double (rng (take_length s1)) = (fst (rand_double (rng s1)), shift 1 (rng s1))"
    using rand_double_pair [of "rng s1"] by (simp add: take_length_def)
  have lm: "last_was_match ((take_length s1)\<lparr>rng := g\<rparr>) = last_was_match s1" for g
    by (simp add: take_length_def)
  show ?thesis
    unfolding emit_run_def Let_def rd prod.case lm
    by (simp add: take_length_def)
qed

lemma generate_lengths_loop_rng:
  "generate_lengths_loop powf len_exp num i lf g = Inr (lf', g') \<Longrightarrow> g' = shift (num - i) g"
proof (induction powf len_exp num i lf g rule: generate_lengths_loop.induct)
  case (1 powf len_exp num i lf g)
  note unfold = generate_lengths_loop.simps [of powf len_exp num i lf g]
  show ?case
  proof (cases "i < num")
    case False
    with "1.prems" show ?thesis by (simp add: unfold)
  next
    case True
    define u where "u = fst (rand_double g)"
    have rd: "rand_double g = (u, shift 1 g)"
      unfolding u_def by (rule rand_double_pair)
    define len where "len = length_of_draw powf len_exp u"
    from True "1.prems" have ok: "len < NUM_LEN"
      by (auto simp: unfold rd len_def Let_def split: if_splits)
    from True "1.prems" ok
    have rec: "generate_lengths_loop powf len_exp num (i + 1) (lf(len := lf len + 1)) (shift 1 g)
               = Inr (lf', g')"
      by (simp add: unfold rd len_def Let_def)
    have "g' = shift (num - (i + 1)) (shift 1 g)"
      by (rule "1.IH" [OF True rd [symmetric] refl len_def ok rec])
    then show ?thesis using True by (simp add: Suc_diff_Suc)
  qed
qed

lemma generate_lengths_rng:
  "generate_lengths powf lf num len_exp g = Inr (lf', g') \<Longrightarrow> g' = shift num g"
  using generate_lengths_loop_rng [of powf len_exp num 0 _ g lf' g']
  by (simp add: generate_lengths_def)

lemma refill_rng:
  "refill powf len_exp lit_exp samples s = Inr s' \<Longrightarrow>
   rng s' = shift (LEN_PER_CHUNK + MAX_LEN) (rng s)"
  by (auto simp: refill_def generate_literals_closed0 split: sum.splits
      dest!: generate_lengths_rng)

lemma find_next_length_rng:
  assumes "find_next_length powf len_exp lit_exp samples s = Inr s'"
  shows "\<exists>k. rng s' = shift k (rng s)"
  using assms
proof (cases rule: find_next_length_elim)
  case (scan c)
  then have "rng s' = shift 0 (rng s)" by simp
  then show ?thesis by blast
next
  case (refilled s1 c)
  with refill_rng [OF refilled(2)] show ?thesis by auto
qed

lemma emit_run_rng: "\<exists>k. rng (emit_run powf sz ratio lit_exp samples s) = shift k (rng s)"
proof -
  have "rng (emit_run powf sz ratio lit_exp samples s) = shift 1 (rng s)
      \<or> rng (emit_run powf sz ratio lit_exp samples s) = shift 2 (rng s)
      \<or> rng (emit_run powf sz ratio lit_exp samples s)
          = shift (clamp_len sz (cursor_i s) (MIN_LEN + cur_len s)) (shift 1 (rng s))"
    by (simp add: emit_run_unfold Let_def block_defs generate_literals_closed numeral_2_eq_2)
  then show ?thesis by (metis shift_shift)
qed

subsection \<open>Calls that return\<close>

lemma draws_in_range_shift:
  "draws_in_range powf len_exp (k + n) g \<Longrightarrow> draws_in_range powf len_exp n (shift k g)"
  by (simp add: draws_in_range_def add.commute)

lemma draws_in_range_mono:
  "draws_in_range powf len_exp n g \<Longrightarrow> n' \<le> n \<Longrightarrow> draws_in_range powf len_exp n' g"
  by (simp add: draws_in_range_def)

lemma generate_lengths_loop_ok:
  assumes "draws_in_range powf len_exp (num - i) g"
  shows "\<exists>lf'. generate_lengths_loop powf len_exp num i lf g = Inr (lf', shift (num - i) g)"
  using assms
proof (induction powf len_exp num i lf g rule: generate_lengths_loop.induct)
  case (1 powf len_exp num i lf g)
  note unfold = generate_lengths_loop.simps [of powf len_exp num i lf g]
  show ?case
  proof (cases "i < num")
    case False
    then show ?thesis by (simp add: unfold)
  next
    case True
    define u where "u = fst (rand_double g)"
    have rd: "rand_double g = (u, shift 1 g)"
      unfolding u_def by (rule rand_double_pair)
    define len where "len = length_of_draw powf len_exp u"
    have "0 < num - i" using True by simp
    then have "length_of_draw powf len_exp (fst (rand_double (shift 0 g))) < NUM_LEN"
      using "1.prems" unfolding draws_in_range_def by blast
    then have ok: "len < NUM_LEN"
      by (simp add: len_def u_def)
    have "draws_in_range powf len_exp (1 + (num - (i + 1))) g"
      using "1.prems" True by (simp add: Suc_diff_Suc)
    then have d1: "draws_in_range powf len_exp (num - (i + 1)) (shift 1 g)"
      by (rule draws_in_range_shift)
    obtain lf' where
      rec: "generate_lengths_loop powf len_exp num (i + 1) (lf(len := lf len + 1)) (shift 1 g)
            = Inr (lf', shift (num - (i + 1)) (shift 1 g))"
      using "1.IH" [OF True rd [symmetric] refl len_def ok d1] by blast
    have sh: "shift (num - (i + 1)) (shift 1 g) = shift (num - i) g"
      using True by (simp add: Suc_diff_Suc)
    have "generate_lengths_loop powf len_exp num i lf g =
          generate_lengths_loop powf len_exp num (i + 1) (lf(len := lf len + 1)) (shift 1 g)"
      using True ok by (simp add: unfold rd len_def [symmetric] del: fun_upd_apply)
    with rec sh show ?thesis by simp
  qed
qed

lemma generate_lengths_ok:
  "draws_in_range powf len_exp num g \<Longrightarrow>
   \<exists>lf'. generate_lengths powf lf num len_exp g = Inr (lf', shift num g)"
  using generate_lengths_loop_ok [of powf len_exp num 0 g]
  by (simp add: generate_lengths_def)

lemma refill_ok:
  assumes "draws_in_range powf len_exp (MAX_LEN + LEN_PER_CHUNK) (rng s)"
  shows "\<exists>s'. refill powf len_exp lit_exp samples s = Inr s'"
proof -
  have "draws_in_range powf len_exp LEN_PER_CHUNK (shift MAX_LEN (rng s))"
    using assms by (rule draws_in_range_shift)
  from generate_lengths_ok [OF this, of "len_freq s"]
  show ?thesis
    by (auto simp: refill_def generate_literals_closed0)
qed

text \<open>A table with a non-empty bucket at or below the cursor is scanned without a refill.\<close>

lemma find_next_length_scan:
  "\<exists>k\<le>cur_len s. len_freq s k \<noteq> 0 \<Longrightarrow>
   \<exists>s'. find_next_length powf len_exp lit_exp samples s = Inr s'"
proof (induction "cur_len s" arbitrary: s)
  case 0
  then have "len_freq s (cur_len s) \<noteq> 0" by simp
  then show ?case by (simp add: find_next_length_found)
next
  case (Suc n)
  show ?case
  proof (cases "len_freq s (cur_len s) = 0")
    case False
    then show ?thesis by (simp add: find_next_length_found)
  next
    case True
    from Suc.hyps(2) have nz: "cur_len s \<noteq> 0" by simp
    let ?t = "s\<lparr>cur_len := cur_len s - 1\<rparr>"
    from Suc.prems obtain k where k: "k \<le> cur_len s" "len_freq s k \<noteq> 0" by blast
    with True have "k \<noteq> cur_len s" by auto
    with k(1) have "k \<le> cur_len s - 1" by arith
    with k(2) have ex: "\<exists>k\<le>cur_len ?t. len_freq ?t k \<noteq> 0" by auto
    have n: "n = cur_len ?t" using Suc.hyps(2) by simp
    from Suc.hyps(1) [OF n ex] show ?thesis
      by (simp add: find_next_length_down [OF True nz])
  qed
qed

text \<open>A table that is empty at and below the cursor is walked down to the bottom.\<close>

lemma find_next_length_bottom:
  "\<forall>k\<le>cur_len s. len_freq s k = 0 \<Longrightarrow>
   find_next_length powf len_exp lit_exp samples s =
   find_next_length powf len_exp lit_exp samples (s\<lparr>cur_len := 0\<rparr>)"
proof (induction "cur_len s" arbitrary: s)
  case 0
  then have "s\<lparr>cur_len := 0\<rparr> = s" by simp
  then show ?case by simp
next
  case (Suc n)
  from Suc.hyps(2) have nz: "cur_len s \<noteq> 0" by simp
  from Suc.prems have empty: "len_freq s (cur_len s) = 0" by simp
  let ?t = "s\<lparr>cur_len := cur_len s - 1\<rparr>"
  have n: "n = cur_len ?t" using Suc.hyps(2) by simp
  have "\<forall>k\<le>cur_len ?t. len_freq ?t k = 0"
    using Suc.prems by auto
  from Suc.hyps(1) [OF n this] show ?case
    by (simp add: find_next_length_down [OF empty nz])
qed

lemma find_next_length_ok:
  assumes "draws_in_range powf len_exp (MAX_LEN + LEN_PER_CHUNK) (rng s)"
  shows "\<exists>s'. find_next_length powf len_exp lit_exp samples s = Inr s'"
proof (cases "\<exists>k\<le>cur_len s. len_freq s k \<noteq> 0")
  case True
  then show ?thesis by (rule find_next_length_scan)
next
  case False
  then have bottom: "find_next_length powf len_exp lit_exp samples s =
      find_next_length powf len_exp lit_exp samples (s\<lparr>cur_len := 0\<rparr>)"
    by (intro find_next_length_bottom) simp
  obtain s1 where r: "refill powf len_exp lit_exp samples s = Inr s1"
    using refill_ok [OF assms] by blast
  let ?t = "s1\<lparr>cur_len := cur_len s1 - 1\<rparr>"
  have "find_next_length powf len_exp lit_exp samples (s\<lparr>cur_len := 0\<rparr>) =
        find_next_length powf len_exp lit_exp samples ?t"
    using False r by (subst find_next_length_refill) simp_all
  moreover have "\<exists>k\<le>cur_len ?t. len_freq ?t k \<noteq> 0"
  proof -
    obtain k where "k < NUM_LEN" "len_freq s1 k \<noteq> 0"
      using refill_result(2) [OF r] by blast
    then show ?thesis
      using refill_result(1) [OF r] by (intro exI [of _ k]) simp
  qed
  ultimately show ?thesis
    using bottom find_next_length_scan [of ?t powf len_exp lit_exp samples] by simp
qed

lemma find_next_length_draws:
  assumes "find_next_length powf len_exp lit_exp samples s = Inr s'"
  shows "rng s' = rng s \<or> rng s' = shift (LEN_PER_CHUNK + MAX_LEN) (rng s)"
  using assms
proof (cases rule: find_next_length_elim)
  case (scan c)
  then show ?thesis by simp
next
  case (refilled s1 c)
  with refill_rng [OF refilled(2)] show ?thesis by simp
qed

lemma emit_run_draws:
  assumes "cursor_i t < sz"
  shows "\<exists>k. rng (emit_run powf sz ratio lit_exp samples t) = shift k (rng t) \<and>
             k \<le> 1 + (cursor_i (emit_run powf sz ratio lit_exp samples t) - cursor_i t)"
    and "cursor_i t < cursor_i (emit_run powf sz ratio lit_exp samples t)"
    and "cursor_i (emit_run powf sz ratio lit_exp samples t) \<le> sz"
proof -
  let ?len = "clamp_len sz (cursor_i t) (MIN_LEN + cur_len t)"
  have pos: "0 < ?len" and le: "cursor_i t + ?len \<le> sz"
    using assms by (auto simp: clamp_len_def MIN_LEN_def)
  show "cursor_i t < cursor_i (emit_run powf sz ratio lit_exp samples t)"
    using pos by (simp add: emit_run_unfold Let_def)
  show "cursor_i (emit_run powf sz ratio lit_exp samples t) \<le> sz"
    using le assms by (auto simp: emit_run_unfold Let_def clamp_len_def)
  have "rng (emit_run powf sz ratio lit_exp samples t) = shift 1 (rng t) \<and>
          1 \<le> 1 + (cursor_i (emit_run powf sz ratio lit_exp samples t) - cursor_i t)
      \<or> rng (emit_run powf sz ratio lit_exp samples t) = shift 2 (rng t) \<and>
          2 \<le> 1 + (cursor_i (emit_run powf sz ratio lit_exp samples t) - cursor_i t)
      \<or> rng (emit_run powf sz ratio lit_exp samples t) = shift (?len + 1) (rng t) \<and>
          ?len + 1 \<le> 1 + (cursor_i (emit_run powf sz ratio lit_exp samples t) - cursor_i t)"
    by (simp add: emit_run_unfold Let_def block_defs generate_literals_closed numeral_2_eq_2)
  then show "\<exists>k. rng (emit_run powf sz ratio lit_exp samples t) = shift k (rng t) \<and>
             k \<le> 1 + (cursor_i (emit_run powf sz ratio lit_exp samples t) - cursor_i t)"
    by blast
qed

subsection \<open>The main loop\<close>

lemma gen_loop_done:
  "\<not> cursor_i s < sz \<Longrightarrow> gen_loop powf sz ratio len_exp lit_exp samples s = Inr s"
  by (subst gen_loop.simps) simp

lemma gen_loop_step:
  "cursor_i s < sz \<Longrightarrow>
   gen_loop powf sz ratio len_exp lit_exp samples s =
     (case find_next_length powf len_exp lit_exp samples s of
        Inl e \<Rightarrow> Inl e
      | Inr s1 \<Rightarrow> gen_loop powf sz ratio len_exp lit_exp samples
                    (emit_run powf sz ratio lit_exp samples s1))"
  by (subst gen_loop.simps) (simp add: iteration_def split: sum.splits)


text \<open>Invariants of the main loop are established one pass at a time.\<close>

lemma gen_loop_invariant:
  assumes "gen_loop powf sz ratio len_exp lit_exp samples s = Inr s'"
    and "P s"
    and step: "\<And>t t1. P t \<Longrightarrow> cursor_i t < sz \<Longrightarrow>
           find_next_length powf len_exp lit_exp samples t = Inr t1 \<Longrightarrow>
           P (emit_run powf sz ratio lit_exp samples t1)"
  shows "P s' \<and> \<not> cursor_i s' < sz"
  using assms
proof (induction powf sz ratio len_exp lit_exp samples s rule: gen_loop.induct)
  case (1 powf sz ratio len_exp lit_exp samples s)
  note unfold = gen_loop.simps [of powf sz ratio len_exp lit_exp samples s]
  show ?case
  proof (cases "cursor_i s < sz")
    case False
    with "1.prems" show ?thesis by (simp add: unfold)
  next
    case True
    from True "1.prems"(1) obtain s1 where
      f: "find_next_length powf len_exp lit_exp samples s = Inr s1"
      and rec: "gen_loop powf sz ratio len_exp lit_exp samples
                  (emit_run powf sz ratio lit_exp samples s1) = Inr s'"
      by (auto simp: unfold iteration_def split: sum.splits)
    have it: "iteration powf sz ratio len_exp lit_exp samples s
              = Inr (emit_run powf sz ratio lit_exp samples s1)"
      using f by (simp add: iteration_def)
    have "P (emit_run powf sz ratio lit_exp samples s1)"
      using "1.prems"(2) True f by (rule "1.prems"(3))
    from "1.IH" [OF True it rec this "1.prems"(3)] show ?thesis by simp
  qed
qed

lemma gen_loop_rng:
  assumes "gen_loop powf sz ratio len_exp lit_exp samples s = Inr s'"
  shows "\<exists>k. rng s' = shift k (rng s)"
proof -
  have "(\<exists>k. rng s' = shift k (rng s)) \<and> \<not> cursor_i s' < sz"
  proof (rule gen_loop_invariant [OF assms, where P = "\<lambda>t. \<exists>k. rng t = shift k (rng s)"])
    show "\<exists>k. rng s = shift k (rng s)" by (metis shift_0)
  next
    fix t t1
    assume "\<exists>k. rng t = shift k (rng s)"
      and "find_next_length powf len_exp lit_exp samples t = Inr t1"
    then show "\<exists>k. rng (emit_run powf sz ratio lit_exp samples t1) = shift k (rng s)"
      using find_next_length_rng [of powf len_exp lit_exp samples t t1]
        emit_run_rng [of powf sz ratio lit_exp samples t1]
      by (metis shift_shift)
  qed
  then show ?thesis ..
qed

lemma generate_data_internal_rng:
  "generate_data_internal powf jf jb m ptr sz ratio len_exp lit_exp samples g = Inr s \<Longrightarrow>
   \<exists>k. rng s = shift k g"
  unfolding generate_data_internal_def
  by (drule gen_loop_rng) (simp add: init_state_def)

text \<open>A pass draws at most \<open>draws_per_byte\<close> values for each byte it writes, so a call
  returns when that many draws per byte are in range.\<close>

lemma pass_draws:
  assumes lt: "cursor_i t < sz"
    and f: "find_next_length powf len_exp lit_exp samples t = Inr t1"
  shows "\<exists>k. rng (emit_run powf sz ratio lit_exp samples t1) = shift k (rng t) \<and>
             k + draws_per_byte * (sz - cursor_i (emit_run powf sz ratio lit_exp samples t1))
               \<le> draws_per_byte * (sz - cursor_i t)"
    and "cursor_i t < cursor_i (emit_run powf sz ratio lit_exp samples t1)"
    and "cursor_i (emit_run powf sz ratio lit_exp samples t1) \<le> sz"
proof -
  let ?t' = "emit_run powf sz ratio lit_exp samples t1"
  from find_next_length_frame [OF f] have ci: "cursor_i t1 = cursor_i t" by simp
  with lt have lt1: "cursor_i t1 < sz" by simp
  from emit_run_draws [OF lt1, of powf ratio lit_exp samples] obtain k2 where
    r2: "rng ?t' = shift k2 (rng t1)"
    and k2: "k2 \<le> 1 + (cursor_i ?t' - cursor_i t1)"
    and adv: "cursor_i t1 < cursor_i ?t'" and le: "cursor_i ?t' \<le> sz"
    by blast
  from find_next_length_draws [OF f] obtain k1 where
    r1: "rng t1 = shift k1 (rng t)" and k1: "k1 \<le> LEN_PER_CHUNK + MAX_LEN"
    by (metis shift_0 le0 le_refl)
  show "cursor_i t < cursor_i ?t'" using adv ci by simp
  show "cursor_i ?t' \<le> sz" by (rule le)
  have "rng ?t' = shift (k2 + k1) (rng t)" using r1 r2 by simp
  moreover have "k2 + k1 + draws_per_byte * (sz - cursor_i ?t') \<le> draws_per_byte * (sz - cursor_i t)"
    using k1 k2 adv le ci
    by (simp add: draws_per_byte_def MAX_LEN_def LEN_PER_CHUNK_def)
  ultimately show "\<exists>k. rng ?t' = shift k (rng t) \<and>
             k + draws_per_byte * (sz - cursor_i ?t') \<le> draws_per_byte * (sz - cursor_i t)"
    by blast
qed

lemma gen_loop_ok:
  assumes "draws_in_range powf len_exp (draws_per_byte * (sz - cursor_i s)) (rng s)"
  shows "\<exists>s'. gen_loop powf sz ratio len_exp lit_exp samples s = Inr s'"
  using assms
proof (induction powf sz ratio len_exp lit_exp samples s rule: gen_loop.induct)
  case (1 powf sz ratio len_exp lit_exp samples s)
  show ?case
  proof (cases "cursor_i s < sz")
    case False
    then show ?thesis by (simp add: gen_loop_done)
  next
    case True
    then have "MAX_LEN + LEN_PER_CHUNK \<le> draws_per_byte * (sz - cursor_i s)"
      by (cases "sz - cursor_i s") (simp_all add: draws_per_byte_def)
    from draws_in_range_mono [OF "1.prems" this]
    obtain s1 where f: "find_next_length powf len_exp lit_exp samples s = Inr s1"
      using find_next_length_ok by blast
    let ?t' = "emit_run powf sz ratio lit_exp samples s1"
    have it: "iteration powf sz ratio len_exp lit_exp samples s = Inr ?t'"
      using f by (simp add: iteration_def)
    from pass_draws(1) [OF True f, of ratio] obtain k where
      r: "rng ?t' = shift k (rng s)"
      and k: "k + draws_per_byte * (sz - cursor_i ?t') \<le> draws_per_byte * (sz - cursor_i s)"
      by blast
    from draws_in_range_mono [OF "1.prems" k]
    have "draws_in_range powf len_exp (draws_per_byte * (sz - cursor_i ?t')) (rng ?t')"
      unfolding r by (rule draws_in_range_shift)
    from "1.IH" [OF True it this] show ?thesis
      by (simp add: gen_loop_step [OF True] f)
  qed
qed

lemma generate_data_internal_ok:
  "draws_in_range powf len_exp (draws_per_byte * sz) g \<Longrightarrow>
   \<exists>s. generate_data_internal powf jf jb m ptr sz ratio len_exp lit_exp samples g = Inr s"
  unfolding generate_data_internal_def
  by (rule gen_loop_ok) (simp add: init_state_def)

lemma gen_loop_draws:
  assumes run: "gen_loop powf sz ratio len_exp lit_exp samples s = Inr s'"
    and le: "cursor_i s \<le> sz"
  shows "\<exists>k. rng s' = shift k (rng s) \<and> k \<le> draws_per_byte * (sz - cursor_i s)"
proof -
  let ?P = "\<lambda>t. \<exists>k. rng t = shift k (rng s) \<and>
      k + draws_per_byte * (sz - cursor_i t) \<le> draws_per_byte * (sz - cursor_i s)"
  have "?P s' \<and> \<not> cursor_i s' < sz"
  proof (rule gen_loop_invariant [OF run, where P = ?P])
    show "?P s" by (metis shift_0 add_0 le_refl)
  next
    fix t t1
    assume P: "?P t" and lt: "cursor_i t < sz"
      and f: "find_next_length powf len_exp lit_exp samples t = Inr t1"
    let ?t' = "emit_run powf sz ratio lit_exp samples t1"
    from P obtain k0 where r0: "rng t = shift k0 (rng s)"
      and k0: "k0 + draws_per_byte * (sz - cursor_i t) \<le> draws_per_byte * (sz - cursor_i s)"
      by blast
    from pass_draws(1) [OF lt f, of ratio] obtain k where
      r: "rng ?t' = shift k (rng t)"
      and k: "k + draws_per_byte * (sz - cursor_i ?t') \<le> draws_per_byte * (sz - cursor_i t)"
      by blast
    have "rng ?t' = shift (k + k0) (rng s)" using r r0 by simp
    moreover have "k + k0 + draws_per_byte * (sz - cursor_i ?t')
                    \<le> draws_per_byte * (sz - cursor_i s)"
      using k k0 by arith
    ultimately show "?P ?t'" by blast
  qed
  then show ?thesis by auto
qed

lemma generate_data_internal_draws:
  "generate_data_internal powf jf jb m ptr sz ratio len_exp lit_exp samples g = Inr s \<Longrightarrow>
   \<exists>k. rng s = shift k g \<and> k \<le> draws_per_byte * sz"
  unfolding generate_data_internal_def
  by (drule gen_loop_draws) (simp_all add: init_state_def)

subsection \<open>Reading logs\<close>

lemma run_log_append:
  "run_log chk st (xs @ ys) =
     (case run_log chk st xs of None \<Rightarrow> None | Some st' \<Rightarrow> run_log chk st' ys)"
  by (induction xs arbitrary: st) (auto split: option.splits)

lemma find_next_length_trace:
  assumes "find_next_length powf len_exp lit_exp samples s = Inr s'"
  shows "cursor_i s' = cursor_i s" and "cursor_p s' = cursor_p s" and "mem s' = mem s"
    and "last_was_match s' = last_was_match s"
    and "trace s' = trace s \<or> (\<exists>b. trace s' = trace s @ [Refill b])"
    and "trace s' = trace s \<and> buffer s' = buffer s \<or> trace s' = trace s @ [Refill (buffer s')]"
proof -
  have "trace s' = trace s \<and> buffer s' = buffer s \<or> trace s' = trace s @ [Refill (buffer s')]"
    using assms
  proof (cases rule: find_next_length_elim)
    case (scan c)
    then show ?thesis by simp
  next
    case (refilled s1 c)
    with refill_result(8) [OF refilled(2)] show ?thesis by auto
  qed
  then show "trace s' = trace s \<and> buffer s' = buffer s \<or> trace s' = trace s @ [Refill (buffer s')]"
    and "trace s' = trace s \<or> (\<exists>b. trace s' = trace s @ [Refill b])"
    by auto
  show "cursor_i s' = cursor_i s" and "cursor_p s' = cursor_p s" and "mem s' = mem s"
    and "last_was_match s' = last_was_match s"
    using find_next_length_frame [OF assms] by simp_all
qed

subsection \<open>The writes tile the destination\<close>

lemma tiling_inv_step:
  assumes "tiling_inv sz ptr m t" and "cursor_i t < sz"
    and f: "find_next_length powf len_exp lit_exp samples t = Inr t1"
  shows "tiling_inv sz ptr m (emit_run powf sz ratio lit_exp samples t1)"
proof -
  note ft = find_next_length_trace [OF f]
  have t1: "run_log (tiling sz) 0 (trace t1) = Some (cursor_i t1)" "cursor_i t1 < sz"
    "cursor_p t1 = ptr + cursor_i t1"
    "\<forall>a. a < ptr \<or> ptr + cursor_i t1 \<le> a \<longrightarrow> mem t1 a = m a"
    using assms(1,2) ft by (auto simp: tiling_inv_def run_log_append)
  show ?thesis
    using t1
    by (auto simp: tiling_inv_def emit_run_unfold Let_def block_defs generate_literals_closed
        run_log_append clamp_len_def memcpy_def)
qed

lemma generate_data_internal_tiles:
  assumes "generate_data_internal powf jf jb m ptr sz ratio len_exp lit_exp samples g = Inr s"
  shows "cursor_i s = sz" and "cursor_p s = ptr + sz"
    and "run_log (tiling sz) 0 (trace s) = Some sz"
    and "\<forall>a. a < ptr \<or> ptr + sz \<le> a \<longrightarrow> mem s a = m a"
proof -
  have "tiling_inv sz ptr m s \<and> \<not> cursor_i s < sz"
  proof (rule gen_loop_invariant [OF assms [unfolded generate_data_internal_def],
        where P = "tiling_inv sz ptr m"])
    show "tiling_inv sz ptr m (init_state jf jb m ptr g)"
      by (simp add: tiling_inv_def init_state_def)
  qed (rule tiling_inv_step)
  then have inv: "tiling_inv sz ptr m s" and eq: "cursor_i s = sz"
    by (auto simp: tiling_inv_def)
  show "cursor_i s = sz" by (rule eq)
  from inv eq show "cursor_p s = ptr + sz"
    and "run_log (tiling sz) 0 (trace s) = Some sz"
    and "\<forall>a. a < ptr \<or> ptr + sz \<le> a \<longrightarrow> mem s a = m a"
    by (simp_all add: tiling_inv_def)
qed

subsection \<open>The block loop\<close>

lemma bulk_loop_invariant:
  assumes "bulk_loop powf junk ptr sz ratio len_exp lit_exp b = Inr b'"
    and "P b"
    and "\<And>t num smp g1 s. P t \<Longrightarrow> b_offs t < sz \<Longrightarrow>
           num = (if sz - b_offs t > BLOCK_SIZE then BLOCK_SIZE else sz - b_offs t) \<Longrightarrow>
           generate_literals powf (b_samples t) 0 SAMPLE_SIZE lit_exp None (b_rng t) = (smp, g1) \<Longrightarrow>
           generate_data_internal powf (fst (junk (b_offs t))) (snd (junk (b_offs t)))
             (b_mem t) (ptr + b_offs t) num ratio len_exp lit_exp (Some smp) g1 = Inr s \<Longrightarrow>
           P (t\<lparr>b_samples := smp, b_offs := b_offs t + num, b_mem := mem s, b_rng := rng s,
                 b_blocks := b_blocks t @ [(b_offs t, num, smp, trace s)]\<rparr>)"
  shows "P b' \<and> \<not> b_offs b' < sz"
  using assms
proof (induction powf junk ptr sz ratio len_exp lit_exp b rule: bulk_loop.induct)
  case (1 powf junk ptr sz ratio len_exp lit_exp b)
  note unfold = bulk_loop.simps [of powf junk ptr sz ratio len_exp lit_exp b]
  show ?case
  proof (cases "b_offs b < sz")
    case False
    with "1.prems"(1,2) show ?thesis by (simp add: unfold)
  next
    case True
    define num where "num = (if sz - b_offs b > BLOCK_SIZE then BLOCK_SIZE else sz - b_offs b)"
    obtain smp g1 where
      gl: "generate_literals powf (b_samples b) 0 SAMPLE_SIZE lit_exp None (b_rng b) = (smp, g1)"
      by (cases "generate_literals powf (b_samples b) 0 SAMPLE_SIZE lit_exp None (b_rng b)")
    let ?b = "\<lambda>s. b\<lparr>b_samples := smp, b_offs := b_offs b + num, b_mem := mem s, b_rng := rng s,
                    b_blocks := b_blocks b @ [(b_offs b, num, smp, trace s)]\<rparr>"
    let ?call = "generate_data_internal powf (fst (junk (b_offs b))) (snd (junk (b_offs b)))
             (b_mem b) (ptr + b_offs b) num ratio len_exp lit_exp (Some smp) g1"
    have "bulk_loop powf junk ptr sz ratio len_exp lit_exp b =
          (case ?call of Inl e \<Rightarrow> Inl e
           | Inr s \<Rightarrow> bulk_loop powf junk ptr sz ratio len_exp lit_exp (?b s))"
      using True gl by (simp add: unfold num_def [symmetric])
    with "1.prems"(1) have "(case ?call of Inl e \<Rightarrow> Inl e
           | Inr s \<Rightarrow> bulk_loop powf junk ptr sz ratio len_exp lit_exp (?b s)) = Inr b'"
      by (simp only:)
    then obtain s where
      gd: "?call = Inr s"
      and rec: "bulk_loop powf junk ptr sz ratio len_exp lit_exp (?b s) = Inr b'"
      by (cases ?call) simp_all
    have "P (?b s)"
      using "1.prems"(2) True num_def gl gd by (rule "1.prems"(3))
    note ih = "1.IH" [OF True num_def gl [symmetric] refl gd rec this]
    show ?thesis
      by (rule ih) (rule "1.prems"(3))
  qed
qed

lemma bulk_loop_ok:
  assumes "draws_in_range powf len_exp (bulk_draws_per_byte * (sz - b_offs b)) (b_rng b)"
  shows "\<exists>b'. bulk_loop powf junk ptr sz ratio len_exp lit_exp b = Inr b'"
  using assms
proof (induction powf junk ptr sz ratio len_exp lit_exp b rule: bulk_loop.induct)
  case (1 powf junk ptr sz ratio len_exp lit_exp b)
  note unfold = bulk_loop.simps [of powf junk ptr sz ratio len_exp lit_exp b]
  show ?case
  proof (cases "b_offs b < sz")
    case False
    then show ?thesis by (simp add: unfold)
  next
    case True
    define num where "num = (if sz - b_offs b > BLOCK_SIZE then BLOCK_SIZE else sz - b_offs b)"
    have num: "0 < num" "b_offs b + num \<le> sz"
      using True by (auto simp: num_def BLOCK_SIZE_def)
    let ?g1 = "shift SAMPLE_SIZE (b_rng b)"
    obtain smp where
      gl: "generate_literals powf (b_samples b) 0 SAMPLE_SIZE lit_exp None (b_rng b) = (smp, ?g1)"
      by (simp add: generate_literals_closed0)
    let ?b = "\<lambda>s. b\<lparr>b_samples := smp, b_offs := b_offs b + num, b_mem := mem s, b_rng := rng s,
                    b_blocks := b_blocks b @ [(b_offs b, num, smp, trace s)]\<rparr>"
    let ?call = "generate_data_internal powf (fst (junk (b_offs b))) (snd (junk (b_offs b)))
             (b_mem b) (ptr + b_offs b) num ratio len_exp lit_exp (Some smp) ?g1"
    have eq: "bulk_loop powf junk ptr sz ratio len_exp lit_exp b =
          (case ?call of Inl e \<Rightarrow> Inl e
           | Inr s \<Rightarrow> bulk_loop powf junk ptr sz ratio len_exp lit_exp (?b s))"
      using True gl by (simp add: unfold num_def [symmetric])
    have "SAMPLE_SIZE + draws_per_byte * num \<le> bulk_draws_per_byte * (sz - b_offs b)"
      using num by (simp add: bulk_draws_per_byte_def draws_per_byte_def SAMPLE_SIZE_def
          MAX_LEN_def LEN_PER_CHUNK_def)
    from draws_in_range_shift [OF draws_in_range_mono [OF "1.prems" this]]
    have "draws_in_range powf len_exp (draws_per_byte * num) ?g1" .
    from generate_data_internal_ok [OF this] obtain s where gd: "?call = Inr s" by blast
    from generate_data_internal_draws [OF gd] obtain k where
      r: "rng s = shift k ?g1" and k: "k \<le> draws_per_byte * num" by blast
    have r': "b_rng (?b s) = shift (k + SAMPLE_SIZE) (b_rng b)" using r by simp
    have "k + SAMPLE_SIZE + bulk_draws_per_byte * (sz - b_offs (?b s))
            \<le> bulk_draws_per_byte * (sz - b_offs b)"
      using num k by (simp add: bulk_draws_per_byte_def draws_per_byte_def SAMPLE_SIZE_def
          MAX_LEN_def LEN_PER_CHUNK_def)
    from draws_in_range_shift [OF draws_in_range_mono [OF "1.prems" this]]
    have "draws_in_range powf len_exp (bulk_draws_per_byte * (sz - b_offs (?b s))) (b_rng (?b s))"
      unfolding r' .
    from "1.IH" [OF True num_def gl [symmetric] refl gd this] show ?thesis
      by (simp only: eq gd sum.case)
  qed
qed

lemma lzdg_generate_data_bulk_ok:
  "draws_in_range powf len_exp (bulk_draws_per_byte * sz) g \<Longrightarrow>
   \<exists>b. lzdg_generate_data_bulk powf junk js m ptr sz ratio len_exp lit_exp g = Inr b"
  unfolding lzdg_generate_data_bulk_def
  by (rule bulk_loop_ok) simp

lemma bulk_tiling_inv_step:
  assumes "bulk_tiling_inv sz ptr m t" and "b_offs t < sz"
    and "num = (if sz - b_offs t > BLOCK_SIZE then BLOCK_SIZE else sz - b_offs t)"
    and gd: "generate_data_internal powf jf jb (b_mem t) (ptr + b_offs t) num ratio len_exp
               lit_exp samples g1 = Inr s"
  shows "bulk_tiling_inv sz ptr m
           (t\<lparr>b_samples := smp, b_offs := b_offs t + num, b_mem := mem s, b_rng := rng s,
              b_blocks := b_blocks t @ [(b_offs t, num, smp, trace s)]\<rparr>)"
  using assms(1-3) generate_data_internal_tiles(3,4) [OF gd]
  by (auto simp: bulk_tiling_inv_def run_log_append BLOCK_SIZE_def)

subsection \<open>Repeat runs are separated\<close>

lemma separated_inv_step:
  assumes "separated_inv t" and "cursor_i t < sz"
    and f: "find_next_length powf len_exp lit_exp samples t = Inr t1"
  shows "separated_inv (emit_run powf sz ratio lit_exp samples t1)"
proof -
  note ft = find_next_length_trace [OF f]
  have t1: "run_log separated NoRepeat (trace t1)
              = Some (if last_was_match t1 then AfterRepeat else NoRepeat)"
    "cursor_i t1 < sz"
    using assms(1,2) ft by (auto simp: separated_inv_def run_log_append)
  then have "0 < clamp_len sz (cursor_i t1) (MIN_LEN + cur_len t1)"
    by (simp add: clamp_len_def MIN_LEN_def)
  with t1 show ?thesis
    by (auto simp: separated_inv_def emit_run_unfold Let_def block_defs run_log_append split_beta)
qed

lemma generate_data_internal_separated:
  assumes "generate_data_internal powf jf jb m ptr sz ratio len_exp lit_exp samples g = Inr s"
  shows "separated_inv s"
proof -
  have "separated_inv s \<and> \<not> cursor_i s < sz"
  proof (rule gen_loop_invariant [OF assms [unfolded generate_data_internal_def],
        where P = separated_inv])
    show "separated_inv (init_state jf jb m ptr g)"
      by (simp add: separated_inv_def init_state_def)
  qed (rule separated_inv_step)
  then show ?thesis ..
qed

text \<open>A property of the log of every call holds for the log of every block.\<close>

lemma bulk_blocks_all:
  assumes "bulk_loop powf junk ptr sz ratio len_exp lit_exp b = Inr b'"
    and "\<forall>(offs, num, smp, t) \<in> set (b_blocks b). Q num smp t"
    and "\<And>jf jb m p num smp g s.
           generate_data_internal powf jf jb m p num ratio len_exp lit_exp (Some smp) g = Inr s \<Longrightarrow>
           Q num smp (trace s)"
  shows "\<forall>(offs, num, smp, t) \<in> set (b_blocks b'). Q num smp t"
proof -
  have "(\<forall>(offs, num, smp, t) \<in> set (b_blocks b'). Q num smp t) \<and> \<not> b_offs b' < sz"
  proof (rule bulk_loop_invariant [OF assms(1),
        where P = "\<lambda>b. \<forall>(offs, num, smp, t) \<in> set (b_blocks b). Q num smp t"])
    show "\<forall>(offs, num, smp, t) \<in> set (b_blocks b). Q num smp t" by (rule assms(2))
  next
    fix t num smp g1 s
    assume "\<forall>(offs, num, smp, t) \<in> set (b_blocks t). Q num smp t"
      and "generate_data_internal powf (fst (junk (b_offs t))) (snd (junk (b_offs t)))
             (b_mem t) (ptr + b_offs t) num ratio len_exp lit_exp (Some smp) g1 = Inr s"
    then show "\<forall>(offs, num, smp, t) \<in> set (b_blocks
        (t\<lparr>b_samples := smp, b_offs := b_offs t + num, b_mem := mem s, b_rng := rng s,
            b_blocks := b_blocks t @ [(b_offs t, num, smp, trace s)]\<rparr>)). Q num smp t"
      using assms(3) by auto
  qed
  then show ?thesis ..
qed

subsection \<open>Lengths and refill cycles\<close>

lemma find_next_length_cur_len:
  assumes "find_next_length powf len_exp lit_exp samples s = Inr s'" and "cur_len s < NUM_LEN"
  shows "cur_len s' < NUM_LEN" and "len_freq s' (cur_len s') \<noteq> 0"
proof -
  have "cur_len s' < NUM_LEN \<and> len_freq s' (cur_len s') \<noteq> 0"
    using assms(1)
  proof (cases rule: find_next_length_elim)
    case (scan c)
    with assms(2) show ?thesis by simp
  next
    case (refilled s1 c)
    then show ?thesis by simp
  qed
  then show "cur_len s' < NUM_LEN" and "len_freq s' (cur_len s') \<noteq> 0" by simp_all
qed

lemma run_lengths_inv_step:
  assumes "run_lengths_inv sz t" and "cursor_i t < sz"
    and f: "find_next_length powf len_exp lit_exp samples t = Inr t1"
  shows "run_lengths_inv sz (emit_run powf sz ratio lit_exp samples t1)"
proof -
  note ft = find_next_length_trace [OF f]
  from assms(1) have c0: "cur_len t < NUM_LEN" by (simp add: run_lengths_inv_def)
  note fc = find_next_length_cur_len [OF f c0]
  obtain l where t1: "run_log (run_lengths sz) (MIN_LEN, False) (trace t1) = Some (l, False)"
    using assms(1) ft(5) by (auto simp: run_lengths_inv_def run_log_append)
  have i: "cursor_i t1 < sz" using assms(2) ft(1) by simp
  have b: "MIN_LEN + cur_len t1 \<le> MAX_LEN"
    using fc(1) by (simp add: NUM_LEN_def MAX_LEN_def MIN_LEN_def)
  show ?thesis
    using t1 i b fc(1)
    by (auto simp: run_lengths_inv_def emit_run_unfold Let_def block_defs split_beta
        run_log_append clamp_len_def MIN_LEN_def)
qed

lemma sum_atMost_zero_tail:
  fixes f :: "nat \<Rightarrow> nat"
  assumes "c \<le> c'" and "\<forall>k. c < k \<and> k \<le> c' \<longrightarrow> f k = 0"
  shows "(\<Sum>k\<le>c'. f k) = (\<Sum>k\<le>c. f k)"
proof (rule sum.mono_neutral_right)
  show "finite {..c'}" by simp
  show "{..c} \<subseteq> {..c'}" using assms(1) by auto
  show "\<forall>i\<in>{..c'} - {..c}. f i = 0" using assms(2) by auto
qed

lemma sum_lessThan_zero_tail:
  fixes f :: "nat \<Rightarrow> nat"
  assumes "c < n" and "\<forall>k. c < k \<and> k < n \<longrightarrow> f k = 0"
  shows "(\<Sum>k<n. f k) = (\<Sum>k\<le>c. f k)"
proof (rule sum.mono_neutral_right)
  show "finite {..<n}" by simp
  show "{..c} \<subseteq> {..<n}" using assms(1) by auto
  show "\<forall>i\<in>{..<n} - {..c}. f i = 0" using assms(2) by auto
qed

lemma sum_atMost_take_one:
  fixes f :: "nat \<Rightarrow> nat"
  assumes "f c \<noteq> 0"
  shows "(\<Sum>k\<le>c. (f(c := f c - 1)) k) + 1 = (\<Sum>k\<le>c. f k)"
proof -
  have fin: "finite {..c}" and mem: "c \<in> {..c}" by simp_all
  have "(\<Sum>k\<le>c. (f(c := f c - 1)) k) = (f c - 1) + (\<Sum>k\<in>{..c} - {c}. (f(c := f c - 1)) k)"
    using sum.remove [OF fin mem, of "f(c := f c - 1)"] by simp
  also have "(\<Sum>k\<in>{..c} - {c}. (f(c := f c - 1)) k) = (\<Sum>k\<in>{..c} - {c}. f k)"
    by (rule sum.cong) auto
  finally have "(\<Sum>k\<le>c. (f(c := f c - 1)) k) + 1 = f c + (\<Sum>k\<in>{..c} - {c}. f k)"
    using assms by simp
  also have "\<dots> = (\<Sum>k\<le>c. f k)"
    using sum.remove [OF fin mem, of f] by simp
  finally show ?thesis .
qed

lemma cycle_inv_scan:
  assumes "cycle_inv t" and f: "find_next_length powf len_exp lit_exp samples t = Inr t1"
  shows "cycle_inv t1 \<and> len_freq t1 (cur_len t1) \<noteq> 0"
  using f
proof (cases rule: find_next_length_elim)
  case (scan c)
  from assms(1) obtain ub n where
    st: "run_log cycle_order (MAX_LEN, LEN_PER_CHUNK) (trace t) = Some (ub, n)"
    and ub: "MIN_LEN + cur_len t \<le> ub"
    and n: "n + (\<Sum>k\<le>cur_len t. len_freq t k) = LEN_PER_CHUNK"
    and c0: "cur_len t < NUM_LEN"
    by (auto simp: cycle_inv_def)
  have "(\<Sum>k\<le>cur_len t. len_freq t k) = (\<Sum>k\<le>c. len_freq t k)"
    by (rule sum_atMost_zero_tail [OF scan(1,3)])
  with st ub n c0 scan show ?thesis
    by (auto simp: cycle_inv_def)
next
  case (refilled s1 c)
  from assms(1) obtain ub n where
    st: "run_log cycle_order (MAX_LEN, LEN_PER_CHUNK) (trace t) = Some (ub, n)"
    and n: "n + (\<Sum>k\<le>cur_len t. len_freq t k) = LEN_PER_CHUNK"
    by (auto simp: cycle_inv_def)
  have "(\<Sum>k\<le>cur_len t. len_freq t k) = 0"
    using refilled(1) by simp
  with n have full: "n = LEN_PER_CHUNK" by simp
  obtain b where tr: "trace s1 = trace t @ [Refill b]"
    using refill_result(8) [OF refilled(2)] by blast
  have "(\<Sum>k<NUM_LEN. len_freq s1 k) = (\<Sum>k\<le>c. len_freq s1 k)"
    by (rule sum_lessThan_zero_tail [OF refilled(3,5)])
  then have sum: "(\<Sum>k\<le>c. len_freq s1 k) = LEN_PER_CHUNK"
    using refill_result(3) [OF refilled(2)] by simp
  have "MIN_LEN + c \<le> MAX_LEN"
    using refilled(3) by (simp add: NUM_LEN_def MAX_LEN_def MIN_LEN_def)
  with st full tr sum refilled(3,4,6) show ?thesis
    by (auto simp: cycle_inv_def run_log_append)
qed

lemma cycle_inv_step:
  assumes "cycle_inv t" and "cursor_i t < sz"
    and f: "find_next_length powf len_exp lit_exp samples t = Inr t1"
  shows "cycle_inv (emit_run powf sz ratio lit_exp samples t1)"
proof -
  from cycle_inv_scan [OF assms(1) f] obtain ub n where
    st: "run_log cycle_order (MAX_LEN, LEN_PER_CHUNK) (trace t1) = Some (ub, n)"
    and ub: "MIN_LEN + cur_len t1 \<le> ub"
    and n: "n + (\<Sum>k\<le>cur_len t1. len_freq t1 k) = LEN_PER_CHUNK"
    and c0: "cur_len t1 < NUM_LEN"
    and nz: "len_freq t1 (cur_len t1) \<noteq> 0"
    by (auto simp: cycle_inv_def)
  note one = sum_atMost_take_one [of "len_freq t1" "cur_len t1", OF nz]
  have lt: "n < LEN_PER_CHUNK"
    using n one by arith
  have n': "n + 1 + (\<Sum>k\<le>cur_len t1. ((len_freq t1)(cur_len t1 := len_freq t1 (cur_len t1) - 1)) k)
            = LEN_PER_CHUNK"
    using n one by arith
  have tl: "cycle_inv (take_length t1)"
    using st ub lt n' c0
    by (simp add: cycle_inv_def take_length_def run_log_append)
  have "cycle_inv s'" if "cycle_inv s" "cur_len s' = cur_len s" "len_freq s' = len_freq s"
      "\<exists>es. trace s' = trace s @ es \<and> (\<forall>e\<in>set es. is_write e)" for s s'
  proof -
    from that(1) obtain ub n where
      "run_log cycle_order (MAX_LEN, LEN_PER_CHUNK) (trace s) = Some (ub, n)"
      by (auto simp: cycle_inv_def)
    moreover have "run_log cycle_order (ub, n) es = Some (ub, n)" if "\<forall>e\<in>set es. is_write e" for es
      using that by (induction es) (auto elim: is_write.elims)
    ultimately show ?thesis
      using that by (auto simp: cycle_inv_def run_log_append)
  qed
  from this [OF tl] show ?thesis
    by (auto simp: emit_run_unfold Let_def block_defs split_beta)
qed

subsection \<open>Ratio one\<close>

lemma rand_double_below_1: "fst (rand_double g) < 1"
proof -
  have "unat (g 0) < 4294967296"
    using unsigned_less [of "g 0", where 'a = nat] by simp
  then have "(of_nat (unat (g 0)) :: rat) < of_nat 4294967296"
    by (simp only: of_nat_less_iff)
  then show ?thesis
    by (simp add: rand_double_value)
qed

lemma literal_branch_at_ratio_1: "fst (rand_double g) < to_double (1 / 1)"
  using rand_double_below_1 [of g] by (simp add: to_double_1)

lemma literal_only_step:
  assumes "literal_only t"
    and f: "find_next_length powf len_exp lit_exp samples t = Inr t1"
  shows "literal_only (emit_run powf sz 1 lit_exp samples t1)"
proof -
  note ft = find_next_length_trace [OF f]
  have t1: "literal_only t1"
    using assms(1) ft by (auto simp: literal_only_def)
  then show ?thesis
    using literal_branch_at_ratio_1 [of "rng t1"]
    by (auto simp: literal_only_def emit_run_unfold Let_def block_defs split_beta)
qed

subsection \<open>The fixtures\<close>

lemma draws_in_range_const:
  "length_of_draw powf len_exp (of_nat (unat r) / 4294967296) < NUM_LEN \<Longrightarrow>
   draws_in_range powf len_exp n (rng_const r)"
  using shift_rng_const [of _ r]
  by (simp add: draws_in_range_def rand_double_value) (simp add: rng_const_def)

lemma length_of_draw_half: "length_of_draw powf_nat_exp 3 (1 / 2) = 32"
  by code_simp

lemma draws_in_range_half: "draws_in_range powf_nat_exp 3 n (rng_const 0x80000000)"
  by (rule draws_in_range_const) (simp add: length_of_draw_half NUM_LEN_def MAX_LEN_def MIN_LEN_def)

lemma generate_lengths_loop_const:
  assumes "length_of_draw powf len_exp (fst (rand_double (rng_const r))) = c" and "c < NUM_LEN"
  shows "generate_lengths_loop powf len_exp num i lf (rng_const r)
         = Inr (lf(c := lf c + (num - i)), rng_const r)"
proof (induction "num - i" arbitrary: i lf)
  case 0
  then show ?case
    by (subst generate_lengths_loop.simps) (simp add: fun_eq_iff)
next
  case (Suc n)
  then have lt: "i < num" and n: "n = num - (i + 1)" by simp_all
  have rd: "rand_double (rng_const r) = (fst (rand_double (rng_const r)), rng_const r)"
    using rand_double_pair [of "rng_const r"] by simp
  have "generate_lengths_loop powf len_exp num i lf (rng_const r)
        = generate_lengths_loop powf len_exp num (i + 1) (lf(c := lf c + 1)) (rng_const r)"
    apply (subst generate_lengths_loop.simps)
    apply (subst rd)
    using lt assms by (simp add: Let_def del: fun_upd_apply)
  also have "\<dots> = Inr ((lf(c := lf c + 1))(c := (lf(c := lf c + 1)) c + (num - (i + 1))), rng_const r)"
    by (rule Suc.hyps(1) [OF n])
  also have "\<dots> = Inr (lf(c := lf c + (num - i)), rng_const r)"
    using lt by (simp add: fun_eq_iff)
  finally show ?case .
qed

lemma generate_lengths_const:
  assumes "length_of_draw powf len_exp (fst (rand_double (rng_const r))) = c" and "c < NUM_LEN"
  shows "generate_lengths powf lf num len_exp (rng_const r)
         = Inr ((\<lambda>k. if k < NUM_LEN then 0 else lf k)(c := num), rng_const r)"
  using assms
  by (simp add: generate_lengths_def zero_fold_eq generate_lengths_loop_const [OF assms])

lemma refill_const:
  assumes "rng s = rng_const r"
    and "length_of_draw powf len_exp (fst (rand_double (rng_const r))) = c" and "c < NUM_LEN"
  shows "refill powf len_exp lit_exp samples s =
    Inr (s\<lparr>len_freq := (\<lambda>k. if k < NUM_LEN then 0 else len_freq s k)(c := LEN_PER_CHUNK),
           buffer := (\<lambda>a. if a < MAX_LEN then literal_value powf lit_exp samples (rng_const r)
                           else buffer s a),
           cur_len := NUM_LEN, rng := rng_const r,
           trace := trace s @ [Refill (\<lambda>a. if a < MAX_LEN
                                           then literal_value powf lit_exp samples (rng_const r)
                                           else buffer s a)]\<rparr>)"
  by (simp add: refill_def generate_literals_closed0 assms(1)
      generate_lengths_const [OF assms(2,3)] cong: if_cong)

lemma length_of_draw_4095: "length_of_draw powf_nat_exp 3 (4095 / 4096) = 255"
  by code_simp

lemma to_double_half: "to_double (1 / 2) = 1 / 2"
  by code_simp

lemma rand_double_const_top: "fst (rand_double (rng_const 0xFFF00000)) = 4095 / 4096"
  by (simp add: rand_double_value rng_const_def)


subsection \<open>Evaluating a run step by step\<close>

lemmas run_simps =
  lzdg_generate_data_def generate_data_internal_def init_state_def log_of_def
  gen_loop_done gen_loop_step find_next_length_found find_next_length_refill
  emit_run_unfold Let_def block_defs clamp_len_def split_beta generate_literals_closed
  NUM_LEN_def MAX_LEN_def MIN_LEN_def LEN_PER_CHUNK_def

lemma class_top: "length_of_draw powf_nat_exp 3 (fst (rand_double (rng_const 0xFFF00000))) = 255"
  by (simp add: rand_double_const_top length_of_draw_4095)

lemma refill_top:
  "rng s = rng_const 0xFFF00000 \<Longrightarrow>
   refill powf_nat_exp 3 lit_exp samples s =
    Inr (s\<lparr>len_freq := (\<lambda>k. if k < NUM_LEN then 0 else len_freq s k)(255 := LEN_PER_CHUNK),
           buffer := (\<lambda>a. if a < MAX_LEN
                           then literal_value powf_nat_exp lit_exp samples (rng_const 0xFFF00000)
                           else buffer s a),
           cur_len := NUM_LEN, rng := rng_const 0xFFF00000,
           trace := trace s @ [Refill (\<lambda>a. if a < MAX_LEN
                           then literal_value powf_nat_exp lit_exp samples (rng_const 0xFFF00000)
                           else buffer s a)]\<rparr>)"
  by (rule refill_const [OF _ class_top]) (simp_all add: NUM_LEN_def MAX_LEN_def MIN_LEN_def)

lemma generate_data_internal_cycles:
  assumes "generate_data_internal powf jf jb m ptr sz ratio len_exp lit_exp samples g = Inr s"
  shows "cycle_inv s"
proof -
  have "cycle_inv s \<and> \<not> cursor_i s < sz"
  proof (rule gen_loop_invariant [OF assms [unfolded generate_data_internal_def],
        where P = cycle_inv])
    show "cycle_inv (init_state jf jb m ptr g)"
      by (simp add: cycle_inv_def init_state_def NUM_LEN_def MAX_LEN_def MIN_LEN_def)
  qed (rule cycle_inv_step)
  then show ?thesis ..
qed

lemma generate_data_internal_run_lengths:
  assumes "generate_data_internal powf jf jb m ptr sz ratio len_exp lit_exp samples g = Inr s"
  shows "run_lengths_inv sz s"
proof -
  have "run_lengths_inv sz s \<and> \<not> cursor_i s < sz"
  proof (rule gen_loop_invariant [OF assms [unfolded generate_data_internal_def],
        where P = "run_lengths_inv sz"])
    show "run_lengths_inv sz (init_state jf jb m ptr g)"
      by (simp add: run_lengths_inv_def init_state_def NUM_LEN_def MAX_LEN_def MIN_LEN_def)
  qed (rule run_lengths_inv_step)
  then show ?thesis ..
qed

lemma generate_data_internal_literal_only:
  assumes "generate_data_internal powf jf jb m ptr sz 1 len_exp lit_exp samples g = Inr s"
  shows "literal_only s"
proof -
  have "literal_only s \<and> \<not> cursor_i s < sz"
  proof (rule gen_loop_invariant [OF assms [unfolded generate_data_internal_def],
        where P = literal_only])
    show "literal_only (init_state jf jb m ptr g)"
      by (simp add: literal_only_def init_state_def)
  qed (rule literal_only_step)
  then show ?thesis ..
qed

subsection \<open>Repeat runs come from the scratch buffer\<close>

lemma tiling_mono:
  "run_log (tiling sz) k0 evs = Some k \<Longrightarrow> k0 \<le> k"
proof (induction evs arbitrary: k0)
  case Nil
  then show ?case by simp
next
  case (Cons e evs)
  then show ?case
    by (cases e) (auto split: if_splits dest!: Cons.IH)
qed

lemma copies_scratch_cong:
  assumes "run_log (tiling sz) k0 evs = Some k" and "\<forall>a<k. out a = out' a"
  shows "run_log (copies_scratch out) st evs = run_log (copies_scratch out') st evs"
  using assms
proof (induction evs arbitrary: k0 st)
  case Nil
  then show ?case by simp
next
  case (Cons e evs)
  show ?case
  proof (cases e)
    case (Match off len)
    with Cons.prems(1) have off: "off = k0" "k0 + len \<le> sz"
      and rest: "run_log (tiling sz) (k0 + len) evs = Some k"
      by (auto split: if_splits)
    from tiling_mono [OF rest] have "off + len \<le> k" using off by simp
    then have "(\<forall>j<len. out (off + j) = st j) = (\<forall>j<len. out' (off + j) = st j)"
      using Cons.prems(2) by auto
    with Cons.IH [OF rest Cons.prems(2)] Match show ?thesis by simp
  next
    case (Refill b)
    with Cons.prems(1) have "run_log (tiling sz) k0 evs = Some k" by simp
    from Cons.IH [OF this Cons.prems(2)] Refill show ?thesis by simp
  next
    case (Issue l)
    with Cons.prems(1) have "run_log (tiling sz) k0 evs = Some k" by simp
    from Cons.IH [OF this Cons.prems(2)] Issue show ?thesis by simp
  next
    case (Literals off len)
    with Cons.prems(1) have "run_log (tiling sz) (k0 + len) evs = Some k"
      by (auto split: if_splits)
    from Cons.IH [OF this Cons.prems(2)] Literals show ?thesis by simp
  next
    case (BreakLiteral off)
    with Cons.prems(1) have "run_log (tiling sz) (k0 + 1) evs = Some k"
      by (auto split: if_splits)
    from Cons.IH [OF this Cons.prems(2)] BreakLiteral show ?thesis by simp
  qed
qed

lemma scratch_inv_step:
  assumes "scratch_inv sz ptr m jb t" and lt: "cursor_i t < sz"
    and f: "find_next_length powf len_exp lit_exp samples t = Inr t1"
  shows "scratch_inv sz ptr m jb (emit_run powf sz ratio lit_exp samples t1)"
proof -
  let ?s = "emit_run powf sz ratio lit_exp samples t1"
  note ft = find_next_length_trace [OF f]
  from assms(1) have ti: "tiling_inv sz ptr m t" and c0: "cur_len t < NUM_LEN"
    and sc: "run_log (copies_scratch (\<lambda>j. mem t (ptr + j))) jb (trace t) = Some (buffer t)"
    by (simp_all add: scratch_inv_def)
  have ti': "tiling_inv sz ptr m ?s"
    by (rule tiling_inv_step [OF ti lt f])
  note fc = find_next_length_cur_len [OF f c0]
  have til1: "run_log (tiling sz) 0 (trace t1) = Some (cursor_i t1)"
    and p1: "cursor_p t1 = ptr + cursor_i t1" and i1: "cursor_i t1 < sz"
    using ti lt ft by (auto simp: tiling_inv_def run_log_append)
  have sc1: "run_log (copies_scratch (\<lambda>j. mem t1 (ptr + j))) jb (trace t1) = Some (buffer t1)"
    using sc ft(3,6) by (auto simp: run_log_append)
  have agree: "\<forall>a<cursor_i t1. mem t1 (ptr + a) = mem ?s (ptr + a)"
    using p1
    by (auto simp: emit_run_unfold Let_def block_defs generate_literals_closed memcpy_def)
  have old: "run_log (copies_scratch (\<lambda>j. mem ?s (ptr + j))) jb (trace t1) = Some (buffer t1)"
    using copies_scratch_cong [OF til1 agree, of jb] sc1 by simp
  have b: "MIN_LEN + cur_len t1 \<le> MAX_LEN"
    using fc(1) by (simp add: NUM_LEN_def MAX_LEN_def MIN_LEN_def)
  have new: "\<exists>es. trace ?s = trace t1 @ es \<and>
      run_log (copies_scratch (\<lambda>j. mem ?s (ptr + j))) (buffer t1) es = Some (buffer ?s)"
    using p1 b
    by (auto simp: emit_run_unfold Let_def block_defs generate_literals_closed memcpy_def
        clamp_len_def)
  have c': "cur_len ?s < NUM_LEN"
    using fc(1) by (simp add: emit_run_unfold Let_def block_defs split_beta)
  from old new ti' c' show ?thesis
    by (auto simp: scratch_inv_def run_log_append)
qed

lemma generate_data_internal_scratch:
  assumes "generate_data_internal powf jf jb m ptr sz ratio len_exp lit_exp samples g = Inr s"
  shows "scratch_inv sz ptr m jb s"
proof -
  have "scratch_inv sz ptr m jb s \<and> \<not> cursor_i s < sz"
  proof (rule gen_loop_invariant [OF assms [unfolded generate_data_internal_def],
        where P = "scratch_inv sz ptr m jb"])
    show "scratch_inv sz ptr m jb (init_state jf jb m ptr g)"
      by (simp add: scratch_inv_def tiling_inv_def init_state_def NUM_LEN_def MAX_LEN_def
          MIN_LEN_def)
  qed (rule scratch_inv_step)
  then show ?thesis ..
qed

subsection \<open>Literals of a block come from its corpus\<close>

lemma from_corpus_cong:
  assumes "run_log (tiling sz) k0 evs = Some k" and "\<forall>a<k. out a = out' a"
  shows "run_log (from_corpus out smp) st evs = run_log (from_corpus out' smp) st evs"
  using assms
proof (induction evs arbitrary: k0 st)
  case Nil
  then show ?case by simp
next
  case (Cons e evs)
  show ?case
  proof (cases e)
    case (Match off len)
    with Cons.prems(1) have "run_log (tiling sz) (k0 + len) evs = Some k"
      by (auto split: if_splits)
    from Cons.IH [OF this Cons.prems(2)] Match show ?thesis by simp
  next
    case (Refill b)
    with Cons.prems(1) have "run_log (tiling sz) k0 evs = Some k" by simp
    from Cons.IH [OF this Cons.prems(2)] Refill show ?thesis by simp
  next
    case (Issue l)
    with Cons.prems(1) have "run_log (tiling sz) k0 evs = Some k" by simp
    from Cons.IH [OF this Cons.prems(2)] Issue show ?thesis by simp
  next
    case (Literals off len)
    with Cons.prems(1) have off: "off = k0"
      and rest: "run_log (tiling sz) (k0 + len) evs = Some k"
      by (auto split: if_splits)
    from tiling_mono [OF rest] have "off + len \<le> k" using off by simp
    then have "(\<forall>j<len. \<exists>i<SAMPLE_SIZE. out (off + j) = smp i)
             = (\<forall>j<len. \<exists>i<SAMPLE_SIZE. out' (off + j) = smp i)"
      using Cons.prems(2) by auto
    with Cons.IH [OF rest Cons.prems(2)] Literals show ?thesis by simp
  next
    case (BreakLiteral off)
    with Cons.prems(1) have off: "off = k0"
      and rest: "run_log (tiling sz) (k0 + 1) evs = Some k"
      by (auto split: if_splits)
    from tiling_mono [OF rest] have "off < k" using off by simp
    then have "(\<exists>i<SAMPLE_SIZE. out off = smp i) = (\<exists>i<SAMPLE_SIZE. out' off = smp i)"
      using Cons.prems(2) by auto
    with Cons.IH [OF rest Cons.prems(2)] BreakLiteral show ?thesis by simp
  qed
qed

lemma literal_value_in_corpus:
  "\<exists>i<SAMPLE_SIZE. literal_value powf lit_exp (Some smp) g = smp i"
  by (auto simp: literal_value_def SAMPLE_SIZE_def intro!: exI [of _ "unat (fst (pcg32_random g)) mod 16384"])

lemma corpus_inv_step:
  assumes "corpus_inv sz ptr m smp t" and lt: "cursor_i t < sz"
    and f: "find_next_length powf len_exp lit_exp (Some smp) t = Inr t1"
  shows "corpus_inv sz ptr m smp (emit_run powf sz ratio lit_exp (Some smp) t1)"
proof -
  let ?s = "emit_run powf sz ratio lit_exp (Some smp) t1"
  note ft = find_next_length_trace [OF f]
  from assms(1) have ti: "tiling_inv sz ptr m t"
    and sc: "run_log (from_corpus (\<lambda>j. mem t (ptr + j)) smp) () (trace t) = Some ()"
    by (simp_all add: corpus_inv_def)
  have ti': "tiling_inv sz ptr m ?s"
    by (rule tiling_inv_step [OF ti lt f])
  have til1: "run_log (tiling sz) 0 (trace t1) = Some (cursor_i t1)"
    and p1: "cursor_p t1 = ptr + cursor_i t1" and i1: "cursor_i t1 < sz"
    using ti lt ft by (auto simp: tiling_inv_def run_log_append)
  have sc1: "run_log (from_corpus (\<lambda>j. mem t1 (ptr + j)) smp) () (trace t1) = Some ()"
    using sc ft(3,5) by (auto simp: run_log_append)
  have agree: "\<forall>a<cursor_i t1. mem t1 (ptr + a) = mem ?s (ptr + a)"
    using p1
    by (auto simp: emit_run_unfold Let_def block_defs generate_literals_closed memcpy_def)
  have old: "run_log (from_corpus (\<lambda>j. mem ?s (ptr + j)) smp) () (trace t1) = Some ()"
    using from_corpus_cong [OF til1 agree, of smp "()"] sc1 by simp
  have new: "\<exists>es. trace ?s = trace t1 @ es \<and>
      run_log (from_corpus (\<lambda>j. mem ?s (ptr + j)) smp) () es = Some ()"
    using p1 literal_value_in_corpus [of powf lit_exp smp]
    by (auto simp: emit_run_unfold Let_def block_defs generate_literals_closed memcpy_def
        clamp_len_def)
  from old new ti' show ?thesis
    by (auto simp: corpus_inv_def run_log_append)
qed

lemma generate_data_internal_corpus:
  assumes "generate_data_internal powf jf jb m ptr sz ratio len_exp lit_exp (Some smp) g = Inr s"
  shows "corpus_inv sz ptr m smp s"
proof -
  have "corpus_inv sz ptr m smp s \<and> \<not> cursor_i s < sz"
  proof (rule gen_loop_invariant [OF assms [unfolded generate_data_internal_def],
        where P = "corpus_inv sz ptr m smp"])
    show "corpus_inv sz ptr m smp (init_state jf jb m ptr g)"
      by (simp add: corpus_inv_def tiling_inv_def init_state_def)
  qed (rule corpus_inv_step)
  then show ?thesis ..
qed

lemma draws_of_append [simp]: "draws_of (xs @ ys) = draws_of xs + draws_of ys"
  by (simp add: draws_of_def)

lemma draws_of_Nil [simp]: "draws_of [] = 0"
  by (simp add: draws_of_def)

lemma draws_of_Cons [simp]: "draws_of (e # es) = draws_of_event e + draws_of es"
  by (simp add: draws_of_def)

text \<open>The generator is behind its entry state by the draws of the log.\<close>

lemma find_next_length_draws_log:
  assumes "find_next_length powf len_exp lit_exp samples t = Inr t1"
    and "rng t = shift (draws_of (trace t)) g"
  shows "rng t1 = shift (draws_of (trace t1)) g"
  using assms(1)
proof (cases rule: find_next_length_elim)
  case (scan c)
  with assms(2) show ?thesis by simp
next
  case (refilled s1 c)
  from refill_result(8) [OF refilled(2)] obtain b where "trace s1 = trace t @ [Refill b]"
    by blast
  with refill_rng [OF refilled(2)] refilled(4) assms(2) show ?thesis
    by (simp add: add.commute add.left_commute)
qed

lemma emit_run_draws_log:
  assumes "rng t1 = shift (draws_of (trace t1)) g"
  shows "rng (emit_run powf sz ratio lit_exp samples t1)
         = shift (draws_of (trace (emit_run powf sz ratio lit_exp samples t1))) g"
  using assms
  by (simp add: emit_run_unfold Let_def block_defs generate_literals_closed split_beta
      add.commute add.left_commute)

lemma generate_data_internal_draws_log:
  assumes "generate_data_internal powf jf jb m ptr sz ratio len_exp lit_exp samples g = Inr s"
  shows "rng s = shift (draws_of (trace s)) g"
proof -
  have "rng s = shift (draws_of (trace s)) g \<and> \<not> cursor_i s < sz"
  proof (rule gen_loop_invariant [OF assms [unfolded generate_data_internal_def],
        where P = "\<lambda>t. rng t = shift (draws_of (trace t)) g"])
    show "rng (init_state jf jb m ptr g) = shift (draws_of (trace (init_state jf jb m ptr g))) g"
      by (simp add: init_state_def)
  next
    fix t t1
    assume "rng t = shift (draws_of (trace t)) g"
      and "find_next_length powf len_exp lit_exp samples t = Inr t1"
    then have "rng t1 = shift (draws_of (trace t1)) g"
      by (rule find_next_length_draws_log [rotated])
    then show "rng (emit_run powf sz ratio lit_exp samples t1)
         = shift (draws_of (trace (emit_run powf sz ratio lit_exp samples t1))) g"
      by (rule emit_run_draws_log)
  qed
  then show ?thesis ..
qed

lemma block_corpus_mono:
  "run_log (block_corpus powf lit_exp sz out) (k0, g0) bs = Some (k, g) \<Longrightarrow> k0 \<le> k"
proof (induction bs arbitrary: k0 g0)
  case Nil
  then show ?case by simp
next
  case (Cons blk bs)
  obtain offs num smp t where blk: "blk = (offs, num, smp, t)"
    by (cases blk)
  from Cons.prems blk have "run_log (block_corpus powf lit_exp sz out)
      (k0 + num, shift (SAMPLE_SIZE + draws_of t) g0) bs = Some (k, g)"
    by (simp split: if_splits)
  from Cons.IH [OF this] show ?case by simp
qed

lemma block_corpus_cong:
  assumes "run_log (block_corpus powf lit_exp sz out) (k0, g0) bs = Some (k, g)"
    and "\<forall>a<k. out a = out' a"
  shows "run_log (block_corpus powf lit_exp sz out') (k0, g0) bs = Some (k, g)"
  using assms
proof (induction bs arbitrary: k0 g0)
  case Nil
  then show ?case by simp
next
  case (Cons blk bs)
  obtain offs num smp t where blk: "blk = (offs, num, smp, t)"
    by (cases blk)
  let ?g1 = "shift (SAMPLE_SIZE + draws_of t) g0"
  from Cons.prems(1) blk have
    ok: "block_corpus powf lit_exp sz out (k0, g0) (offs, num, smp, t) = Some (k0 + num, ?g1)"
    and rest: "run_log (block_corpus powf lit_exp sz out) (k0 + num, ?g1) bs = Some (k, g)"
    by (simp_all split: if_splits)
  from ok have shape: "block_shape powf lit_exp sz k0 g0 (offs, num, smp, t)"
    and fc: "run_log (from_corpus (\<lambda>j. out (offs + j)) smp) () t = Some ()"
    by (simp_all split: if_splits)
  from shape have offs: "offs = k0" and til: "run_log (tiling num) 0 t = Some num"
    unfolding block_shape_def by blast+
  have "k0 + num \<le> k" by (rule block_corpus_mono [OF rest])
  then have "\<forall>a<num. out (offs + a) = out' (offs + a)"
    using Cons.prems(2) offs by simp
  from from_corpus_cong [OF til this, of smp "()"] fc
  have "run_log (from_corpus (\<lambda>j. out' (offs + j)) smp) () t = Some ()" by simp
  with shape have
    "block_corpus powf lit_exp sz out' (k0, g0) (offs, num, smp, t) = Some (k0 + num, ?g1)"
    by simp
  with Cons.IH [OF rest Cons.prems(2)] blk show ?case by simp
qed

lemma bulk_corpus_inv_step:
  assumes inv: "bulk_corpus_inv powf lit_exp sz ptr g t" and lt: "b_offs t < sz"
    and num: "num = (if sz - b_offs t > BLOCK_SIZE then BLOCK_SIZE else sz - b_offs t)"
    and gl: "generate_literals powf (b_samples t) 0 SAMPLE_SIZE lit_exp None (b_rng t) = (smp, g1)"
    and gd: "generate_data_internal powf jf jb (b_mem t) (ptr + b_offs t) num ratio len_exp
               lit_exp (Some smp) g1 = Inr s"
  shows "bulk_corpus_inv powf lit_exp sz ptr g
           (t\<lparr>b_samples := smp, b_offs := b_offs t + num, b_mem := mem s, b_rng := rng s,
              b_blocks := b_blocks t @ [(b_offs t, num, smp, trace s)]\<rparr>)"
proof -
  from inv have
    old: "run_log (block_corpus powf lit_exp sz (\<lambda>j. b_mem t (ptr + j))) (0, g) (b_blocks t)
            = Some (b_offs t, b_rng t)"
    by (simp add: bulk_corpus_inv_def)
  note tiles = generate_data_internal_tiles [OF gd]
  have "\<forall>a<b_offs t. b_mem t (ptr + a) = mem s (ptr + a)"
    using tiles(4) by simp
  from block_corpus_cong [OF old this]
  have old': "run_log (block_corpus powf lit_exp sz (\<lambda>j. mem s (ptr + j))) (0, g) (b_blocks t)
            = Some (b_offs t, b_rng t)" .
  have pos: "0 < num" and le: "b_offs t + num \<le> sz"
    using lt num by (auto simp: BLOCK_SIZE_def)
  have smp: "\<forall>j<SAMPLE_SIZE. smp j = literal_of_draw powf lit_exp (fst (rand_double (shift j (b_rng t))))"
    using gl by (auto simp: generate_literals_closed0 literal_value_def)
  have g1: "g1 = shift SAMPLE_SIZE (b_rng t)"
    using gl by (simp add: generate_literals_closed0)
  have r: "rng s = shift (SAMPLE_SIZE + draws_of (trace s)) (b_rng t)"
    using generate_data_internal_draws_log [OF gd] by (simp add: g1 add.commute)
  have fc: "run_log (from_corpus (\<lambda>j. mem s (ptr + b_offs t + j)) smp) () (trace s) = Some ()"
    using generate_data_internal_corpus [OF gd] by (simp add: corpus_inv_def)
  have "block_shape powf lit_exp sz (b_offs t) (b_rng t) (b_offs t, num, smp, trace s)"
    using pos num smp tiles(3) unfolding block_shape_def by blast
  then have "block_corpus powf lit_exp sz (\<lambda>j. mem s (ptr + j)) (b_offs t, b_rng t)
          (b_offs t, num, smp, trace s) = Some (b_offs t + num, rng s)"
    using fc r by (simp add: add.assoc)
  with old' le show ?thesis
    by (simp add: bulk_corpus_inv_def run_log_append)
qed

subsection \<open>Counting passes\<close>

lemma passes_inv_step:
  assumes "passes_inv t" and lt: "cursor_i t < sz"
    and f: "find_next_length powf len_exp lit_exp samples t = Inr t1"
  shows "passes_inv (emit_run powf sz ratio lit_exp samples t1)"
proof -
  note ft = find_next_length_trace [OF f]
  have t1: "length (filter is_issue (trace t1)) \<le> cursor_i t1"
    "length (filter is_refill (trace t1)) \<le> length (filter is_issue (trace t1)) + 1"
    "cursor_i t1 < sz"
    using assms(1,2) ft(1,5) by (auto simp: passes_inv_def)
  then have "0 < clamp_len sz (cursor_i t1) (MIN_LEN + cur_len t1)"
    by (simp add: clamp_len_def MIN_LEN_def)
  with t1 show ?thesis
    by (auto simp: passes_inv_def emit_run_unfold Let_def block_defs split_beta)
qed

lemma generate_data_internal_passes:
  assumes "generate_data_internal powf jf jb m ptr sz ratio len_exp lit_exp samples g = Inr s"
  shows "passes_inv s"
proof -
  have "passes_inv s \<and> \<not> cursor_i s < sz"
  proof (rule gen_loop_invariant [OF assms [unfolded generate_data_internal_def],
        where P = passes_inv])
    show "passes_inv (init_state jf jb m ptr g)"
      by (simp add: passes_inv_def init_state_def)
  qed (rule passes_inv_step)
  then show ?thesis ..
qed

lemma bulk_blocks_count:
  assumes "bulk_loop powf junk ptr sz ratio len_exp lit_exp b = Inr b'"
    and "length (b_blocks b) \<le> b_offs b" and "b_offs b \<le> sz"
  shows "length (b_blocks b') \<le> b_offs b' \<and> b_offs b' = sz"
proof -
  have "(length (b_blocks b') \<le> b_offs b' \<and> b_offs b' \<le> sz) \<and> \<not> b_offs b' < sz"
  proof (rule bulk_loop_invariant [OF assms(1),
        where P = "\<lambda>b. length (b_blocks b) \<le> b_offs b \<and> b_offs b \<le> sz"])
    show "length (b_blocks b) \<le> b_offs b \<and> b_offs b \<le> sz"
      using assms(2,3) by simp
  next
    fix t :: bulk_state and num :: nat and smp :: bytes and s :: gen_state
    assume "length (b_blocks t) \<le> b_offs t \<and> b_offs t \<le> sz" and "b_offs t < sz"
      and "num = (if sz - b_offs t > BLOCK_SIZE then BLOCK_SIZE else sz - b_offs t)"
    then show "length (b_blocks (t\<lparr>b_samples := smp, b_offs := b_offs t + num, b_mem := mem s,
                 b_rng := rng s, b_blocks := b_blocks t @ [(b_offs t, num, smp, trace s)]\<rparr>))
               \<le> b_offs (t\<lparr>b_samples := smp, b_offs := b_offs t + num, b_mem := mem s,
                 b_rng := rng s, b_blocks := b_blocks t @ [(b_offs t, num, smp, trace s)]\<rparr>) \<and>
             b_offs (t\<lparr>b_samples := smp, b_offs := b_offs t + num, b_mem := mem s,
                 b_rng := rng s, b_blocks := b_blocks t @ [(b_offs t, num, smp, trace s)]\<rparr>) \<le> sz"
      by (auto simp: BLOCK_SIZE_def)
  qed
  then show ?thesis by auto
qed

subsection \<open>Two runs from the same generator state\<close>

lemma literal_value_same:
  "same_corpus x y \<Longrightarrow> literal_value powf lit_exp x g = literal_value powf lit_exp y g"
  by (auto simp: same_corpus_def literal_value_def SAMPLE_SIZE_def split: option.splits)

lemma generate_lengths_loop_rel:
  assumes "\<forall>k<NUM_LEN. lf1 k = lf2 k"
  shows "rel_sum (=) (\<lambda>r1 r2. (\<forall>k<NUM_LEN. fst r1 k = fst r2 k) \<and> snd r1 = snd r2)
           (generate_lengths_loop powf len_exp num i lf1 g)
           (generate_lengths_loop powf len_exp num i lf2 g)"
  using assms
proof (induction powf len_exp num i lf1 g arbitrary: lf2 rule: generate_lengths_loop.induct)
  case (1 powf len_exp num i lf1 g)
  note unfold1 = generate_lengths_loop.simps [of powf len_exp num i lf1 g]
  note unfold2 = generate_lengths_loop.simps [of powf len_exp num i lf2 g]
  show ?case
  proof (cases "i < num")
    case False
    with "1.prems" show ?thesis by (simp add: unfold1 unfold2)
  next
    case True
    define u where "u = fst (rand_double g)"
    have rd: "rand_double g = (u, shift 1 g)"
      unfolding u_def by (rule rand_double_pair)
    define len where "len = length_of_draw powf len_exp u"
    show ?thesis
    proof (cases "len < NUM_LEN")
      case False
      with True show ?thesis
        by (simp add: unfold1 unfold2 rd len_def [symmetric])
    next
      case ok: True
      have agree: "\<forall>k<NUM_LEN. (lf1(len := lf1 len + 1)) k = (lf2(len := lf2 len + 1)) k"
        using "1.prems" by simp
      have e1: "generate_lengths_loop powf len_exp num i lf1 g =
            generate_lengths_loop powf len_exp num (i + 1) (lf1(len := lf1 len + 1)) (shift 1 g)"
        using True ok by (simp add: unfold1 rd len_def [symmetric] del: fun_upd_apply)
      have e2: "generate_lengths_loop powf len_exp num i lf2 g =
            generate_lengths_loop powf len_exp num (i + 1) (lf2(len := lf2 len + 1)) (shift 1 g)"
        using True ok by (simp add: unfold2 rd len_def [symmetric] del: fun_upd_apply)
      show ?thesis
        unfolding e1 e2
        by (rule "1.IH" [OF True rd [symmetric] refl len_def ok agree])
    qed
  qed
qed

lemma generate_lengths_rel:
  "rel_sum (=) (\<lambda>r1 r2. (\<forall>k<NUM_LEN. fst r1 k = fst r2 k) \<and> snd r1 = snd r2)
     (generate_lengths powf lf1 num len_exp g) (generate_lengths powf lf2 num len_exp g)"
  unfolding generate_lengths_def zero_fold_eq
  by (rule generate_lengths_loop_rel) simp

lemma refill_rel:
  assumes "in_step ptr s1 s2" and "same_corpus x y"
  shows "rel_sum (=)
           (\<lambda>t1 t2. in_step ptr (t1\<lparr>cur_len := cur_len t1 - 1\<rparr>) (t2\<lparr>cur_len := cur_len t2 - 1\<rparr>) \<and>
                    tables_agree (t1\<lparr>cur_len := cur_len t1 - 1\<rparr>) (t2\<lparr>cur_len := cur_len t2 - 1\<rparr>))
           (refill powf len_exp lit_exp x s1) (refill powf len_exp lit_exp y s2)"
proof -
  have g: "rng s2 = rng s1" using assms(1) by (simp add: in_step_def)
  let ?g = "shift MAX_LEN (rng s1)"
  have rel: "rel_sum (=) (\<lambda>r1 r2. (\<forall>k<NUM_LEN. fst r1 k = fst r2 k) \<and> snd r1 = snd r2)
     (generate_lengths powf (len_freq s1) LEN_PER_CHUNK len_exp ?g)
     (generate_lengths powf (len_freq s2) LEN_PER_CHUNK len_exp ?g)"
    by (rule generate_lengths_rel)
  show ?thesis
  proof (cases "generate_lengths powf (len_freq s1) LEN_PER_CHUNK len_exp ?g")
    case (Inl e)
    with rel obtain e' where
      "generate_lengths powf (len_freq s2) LEN_PER_CHUNK len_exp ?g = Inl e'" "e = e'"
      by (cases "generate_lengths powf (len_freq s2) LEN_PER_CHUNK len_exp ?g") auto
    with Inl show ?thesis
      by (simp add: refill_def generate_literals_closed0 g)
  next
    case (Inr r1)
    with rel obtain r2 where
      r2: "generate_lengths powf (len_freq s2) LEN_PER_CHUNK len_exp ?g = Inr r2"
      and eq: "\<forall>k<NUM_LEN. fst r1 k = fst r2 k" "snd r1 = snd r2"
      by (cases "generate_lengths powf (len_freq s2) LEN_PER_CHUNK len_exp ?g") auto
    from Inr r2 eq assms show ?thesis
      by (auto simp: refill_def generate_literals_closed0 g in_step_def tables_agree_def
          split_beta literal_value_same [OF assms(2)] NUM_LEN_def MAX_LEN_def MIN_LEN_def)
  qed
qed

lemma find_next_length_rel:
  assumes "in_step ptr s1 s2" and "tables_agree s1 s2 \<or> at_entry s1 s2" and "same_corpus x y"
  shows "rel_sum (=) (\<lambda>t1 t2. in_step ptr t1 t2 \<and> tables_agree t1 t2)
           (find_next_length powf len_exp lit_exp x s1)
           (find_next_length powf len_exp lit_exp y s2)"
  using assms
proof (induction powf len_exp lit_exp x s1 arbitrary: s2 rule: find_next_length.induct)
  case (1 powf len_exp lit_exp x s1)
  note u1 = find_next_length.simps [of powf len_exp lit_exp x s1]
  note u2 = find_next_length.simps [of powf len_exp lit_exp y s2]
  from "1.prems"(1) have cl: "cur_len s2 = cur_len s1"
    by (simp add: in_step_def)
  from "1.prems"(2) have lf: "len_freq s2 (cur_len s1) = len_freq s1 (cur_len s1)"
    by (auto simp: tables_agree_def at_entry_def)
  show ?case
  proof (cases "len_freq s1 (cur_len s1) = 0")
    case False
    with "1.prems"(2) have "tables_agree s1 s2"
      by (auto simp: at_entry_def)
    moreover have "len_freq s2 (cur_len s2) \<noteq> 0"
      using False lf cl by simp
    ultimately show ?thesis
      using "1.prems"(1) False by (simp add: find_next_length_found)
  next
    case empty: True
    have empty2: "len_freq s2 (cur_len s2) = 0"
      using empty lf cl by simp
    show ?thesis
    proof (cases "cur_len s1 = 0")
      case True
      have z2: "cur_len s2 = 0" using True cl by simp
      have rel: "rel_sum (=)
           (\<lambda>t1 t2. in_step ptr (t1\<lparr>cur_len := cur_len t1 - 1\<rparr>) (t2\<lparr>cur_len := cur_len t2 - 1\<rparr>) \<and>
                    tables_agree (t1\<lparr>cur_len := cur_len t1 - 1\<rparr>) (t2\<lparr>cur_len := cur_len t2 - 1\<rparr>))
           (refill powf len_exp lit_exp x s1) (refill powf len_exp lit_exp y s2)"
        by (rule refill_rel [OF "1.prems"(1,3)])
      show ?thesis
      proof (cases "refill powf len_exp lit_exp x s1")
        case (Inl e)
        with rel have "refill powf len_exp lit_exp y s2 = Inl e"
          by (cases "refill powf len_exp lit_exp y s2") auto
        with Inl show ?thesis
          unfolding find_next_length_refill [OF empty True] find_next_length_refill [OF empty2 z2]
          by simp
      next
        case (Inr t1)
        with rel obtain t2 where t2: "refill powf len_exp lit_exp y s2 = Inr t2"
          and r: "in_step ptr (t1\<lparr>cur_len := cur_len t1 - 1\<rparr>) (t2\<lparr>cur_len := cur_len t2 - 1\<rparr>)"
            "tables_agree (t1\<lparr>cur_len := cur_len t1 - 1\<rparr>) (t2\<lparr>cur_len := cur_len t2 - 1\<rparr>)"
          by (cases "refill powf len_exp lit_exp y s2") auto
        have st: "(if cur_len s1 = 0 then refill powf len_exp lit_exp x s1 else Inr s1) = Inr t1"
          using True Inr by simp
        have "rel_sum (=) (\<lambda>t1 t2. in_step ptr t1 t2 \<and> tables_agree t1 t2)
           (find_next_length powf len_exp lit_exp x (t1\<lparr>cur_len := cur_len t1 - 1\<rparr>))
           (find_next_length powf len_exp lit_exp y (t2\<lparr>cur_len := cur_len t2 - 1\<rparr>))"
          using r "1.prems"(3) by (intro "1.IH" [OF empty st]) simp_all
        with Inr t2 show ?thesis
          unfolding find_next_length_refill [OF empty True] find_next_length_refill [OF empty2 z2]
          by simp
      qed
    next
      case False
      with "1.prems"(2) have ta: "tables_agree s1 s2"
        by (auto simp: at_entry_def)
      have st: "(if cur_len s1 = 0 then refill powf len_exp lit_exp x s1 else Inr s1) = Inr s1"
        using False by simp
      have i': "in_step ptr (s1\<lparr>cur_len := cur_len s1 - 1\<rparr>) (s2\<lparr>cur_len := cur_len s2 - 1\<rparr>)"
        using "1.prems"(1) by (simp add: in_step_def)
      have ta': "tables_agree (s1\<lparr>cur_len := cur_len s1 - 1\<rparr>) (s2\<lparr>cur_len := cur_len s2 - 1\<rparr>)"
        using ta by (auto simp: tables_agree_def intro: le_less_trans [OF diff_le_self])
      have "rel_sum (=) (\<lambda>t1 t2. in_step ptr t1 t2 \<and> tables_agree t1 t2)
           (find_next_length powf len_exp lit_exp x (s1\<lparr>cur_len := cur_len s1 - 1\<rparr>))
           (find_next_length powf len_exp lit_exp y (s2\<lparr>cur_len := cur_len s2 - 1\<rparr>))"
        using i' ta' "1.prems"(3) by (intro "1.IH" [OF empty st]) simp_all
      moreover have nz2: "cur_len s2 \<noteq> 0" using False cl by simp
      ultimately show ?thesis
        unfolding find_next_length_down [OF empty False] find_next_length_down [OF empty2 nz2]
        by simp
    qed
  qed
qed

lemma emit_run_rel:
  assumes "in_step ptr t1 t2" and "tables_agree t1 t2" and "same_corpus x y"
  shows "in_step ptr (emit_run powf sz ratio lit_exp x t1) (emit_run powf sz ratio lit_exp y t2)"
    and "tables_agree (emit_run powf sz ratio lit_exp x t1) (emit_run powf sz ratio lit_exp y t2)"
proof -
  have b: "MIN_LEN + cur_len t1 \<le> MAX_LEN"
    using assms(2) by (simp add: tables_agree_def NUM_LEN_def MAX_LEN_def MIN_LEN_def)
  note lv = literal_value_same [OF assms(3)]
  show "tables_agree (emit_run powf sz ratio lit_exp x t1) (emit_run powf sz ratio lit_exp y t2)"
    using assms(1,2)
    by (auto simp: in_step_def tables_agree_def emit_run_unfold Let_def block_defs split_beta)
  show "in_step ptr (emit_run powf sz ratio lit_exp x t1) (emit_run powf sz ratio lit_exp y t2)"
    using assms(1,2) b
    by (auto simp: in_step_def tables_agree_def emit_run_unfold Let_def block_defs
        generate_literals_closed memcpy_def clamp_len_def lv)
qed

lemma gen_loop_rel:
  assumes "in_step ptr s1 s2" and "tables_agree s1 s2 \<or> at_entry s1 s2" and "same_corpus x y"
  shows "rel_sum (=) (in_step ptr)
           (gen_loop powf sz ratio len_exp lit_exp x s1)
           (gen_loop powf sz ratio len_exp lit_exp y s2)"
  using assms
proof (induction powf sz ratio len_exp lit_exp x s1 arbitrary: s2 rule: gen_loop.induct)
  case (1 powf sz ratio len_exp lit_exp x s1)
  from "1.prems"(1) have ci: "cursor_i s2 = cursor_i s1"
    by (simp add: in_step_def)
  show ?case
  proof (cases "cursor_i s1 < sz")
    case False
    with "1.prems"(1) ci show ?thesis
      by (simp add: gen_loop_done)
  next
    case True
    then have lt2: "cursor_i s2 < sz" using ci by simp
    have rel: "rel_sum (=) (\<lambda>t1 t2. in_step ptr t1 t2 \<and> tables_agree t1 t2)
           (find_next_length powf len_exp lit_exp x s1)
           (find_next_length powf len_exp lit_exp y s2)"
      by (rule find_next_length_rel [OF "1.prems"])
    show ?thesis
    proof (cases "find_next_length powf len_exp lit_exp x s1")
      case (Inl e)
      with rel have "find_next_length powf len_exp lit_exp y s2 = Inl e"
        by (cases "find_next_length powf len_exp lit_exp y s2") auto
      with Inl show ?thesis
        unfolding gen_loop_step [OF True] gen_loop_step [OF lt2] by simp
    next
      case (Inr t1)
      with rel obtain t2 where t2: "find_next_length powf len_exp lit_exp y s2 = Inr t2"
        and r: "in_step ptr t1 t2" "tables_agree t1 t2"
        by (cases "find_next_length powf len_exp lit_exp y s2") auto
      have it: "iteration powf sz ratio len_exp lit_exp x s1
                = Inr (emit_run powf sz ratio lit_exp x t1)"
        using Inr by (simp add: iteration_def)
      note er = emit_run_rel [OF r "1.prems"(3), of powf sz ratio lit_exp]
      have "rel_sum (=) (in_step ptr)
           (gen_loop powf sz ratio len_exp lit_exp x (emit_run powf sz ratio lit_exp x t1))
           (gen_loop powf sz ratio len_exp lit_exp y (emit_run powf sz ratio lit_exp y t2))"
        using er "1.prems"(3) by (intro "1.IH" [OF True it]) simp_all
      with Inr t2 show ?thesis
        unfolding gen_loop_step [OF True] gen_loop_step [OF lt2] by simp
    qed
  qed
qed

lemma generate_data_internal_rel:
  assumes "same_corpus x y" and "\<forall>a. ptr' \<le> a \<and> a < ptr \<longrightarrow> m1 a = m2 a" and "ptr' \<le> ptr"
  shows "rel_sum (=)
           (\<lambda>s1 s2. rng s1 = rng s2 \<and> (\<forall>a. ptr' \<le> a \<and> a < ptr + sz \<longrightarrow> mem s1 a = mem s2 a))
           (generate_data_internal powf jf1 jb1 m1 ptr sz ratio len_exp lit_exp x g)
           (generate_data_internal powf jf2 jb2 m2 ptr sz ratio len_exp lit_exp y g)"
proof -
  let ?r1 = "generate_data_internal powf jf1 jb1 m1 ptr sz ratio len_exp lit_exp x g"
  let ?r2 = "generate_data_internal powf jf2 jb2 m2 ptr sz ratio len_exp lit_exp y g"
  have rel: "rel_sum (=) (in_step ptr) ?r1 ?r2"
    unfolding generate_data_internal_def
    by (rule gen_loop_rel [OF _ _ assms(1)])
       (auto simp: in_step_def at_entry_def init_state_def)
  show ?thesis
  proof (cases ?r1)
    case (Inl e)
    with rel have "?r2 = Inl e" by (cases ?r2) auto
    with Inl show ?thesis by simp
  next
    case (Inr s1)
    with rel obtain s2 where s2: "?r2 = Inr s2" and r: "in_step ptr s1 s2"
      by (cases ?r2) auto
    note t1 = generate_data_internal_tiles [OF Inr]
    note t2 = generate_data_internal_tiles [OF s2]
    have "mem s1 a = mem s2 a" if "ptr' \<le> a \<and> a < ptr + sz" for a
    proof (cases "a < ptr")
      case True
      with t1(4) t2(4) assms(2) that show ?thesis by simp
    next
      case False
      with r t1(1) that show ?thesis by (simp add: in_step_def)
    qed
    with r Inr s2 show ?thesis by (simp add: in_step_def)
  qed
qed

lemma bulk_loop_rel:
  assumes "bulk_in_step ptr b1 b2"
  shows "rel_sum (=) (bulk_in_step ptr)
           (bulk_loop powf junk1 ptr sz ratio len_exp lit_exp b1)
           (bulk_loop powf junk2 ptr sz ratio len_exp lit_exp b2)"
  using assms
proof (induction powf junk1 ptr sz ratio len_exp lit_exp b1 arbitrary: b2 rule: bulk_loop.induct)
  case (1 powf junk1 ptr sz ratio len_exp lit_exp b1)
  note u1 = bulk_loop.simps [of powf junk1 ptr sz ratio len_exp lit_exp b1]
  note u2 = bulk_loop.simps [of powf junk2 ptr sz ratio len_exp lit_exp b2]
  from "1.prems" have offs: "b_offs b2 = b_offs b1" and g: "b_rng b2 = b_rng b1"
    and agree: "\<forall>a. ptr \<le> a \<and> a < ptr + b_offs b1 \<longrightarrow> b_mem b1 a = b_mem b2 a"
    by (simp_all add: bulk_in_step_def)
  show ?case
  proof (cases "b_offs b1 < sz")
    case False
    with "1.prems" offs show ?thesis by (simp add: u1 u2)
  next
    case True
    define num where "num = (if sz - b_offs b1 > BLOCK_SIZE then BLOCK_SIZE else sz - b_offs b1)"
    define smp1 where "smp1 = (\<lambda>a. if a < SAMPLE_SIZE
        then literal_value powf lit_exp None (shift a (b_rng b1)) else b_samples b1 a)"
    define smp2 where "smp2 = (\<lambda>a. if a < SAMPLE_SIZE
        then literal_value powf lit_exp None (shift a (b_rng b1)) else b_samples b2 a)"
    define g1 where "g1 = shift SAMPLE_SIZE (b_rng b1)"
    have gl1: "generate_literals powf (b_samples b1) 0 SAMPLE_SIZE lit_exp None (b_rng b1)
               = (smp1, g1)"
      by (simp add: generate_literals_closed0 smp1_def g1_def)
    have gl2: "generate_literals powf (b_samples b2) 0 SAMPLE_SIZE lit_exp None (b_rng b2)
               = (smp2, g1)"
      by (simp add: generate_literals_closed0 smp2_def g1_def g)
    have sc: "same_corpus (Some smp1) (Some smp2)"
      by (simp add: same_corpus_def smp1_def smp2_def)
    let ?c1 = "generate_data_internal powf (fst (junk1 (b_offs b1))) (snd (junk1 (b_offs b1)))
                 (b_mem b1) (ptr + b_offs b1) num ratio len_exp lit_exp (Some smp1) g1"
    let ?c2 = "generate_data_internal powf (fst (junk2 (b_offs b2))) (snd (junk2 (b_offs b2)))
                 (b_mem b2) (ptr + b_offs b2) num ratio len_exp lit_exp (Some smp2) g1"
    let ?n1 = "\<lambda>s. b1\<lparr>b_samples := smp1, b_offs := b_offs b1 + num, b_mem := mem s, b_rng := rng s,
                    b_blocks := b_blocks b1 @ [(b_offs b1, num, smp1, trace s)]\<rparr>"
    let ?n2 = "\<lambda>s. b2\<lparr>b_samples := smp2, b_offs := b_offs b2 + num, b_mem := mem s, b_rng := rng s,
                    b_blocks := b_blocks b2 @ [(b_offs b2, num, smp2, trace s)]\<rparr>"
    have lt2: "b_offs b2 < sz" using True offs by simp
    have num2: "num = (if sz - b_offs b2 > BLOCK_SIZE then BLOCK_SIZE else sz - b_offs b2)"
      by (simp add: num_def offs)
    have e1: "bulk_loop powf junk1 ptr sz ratio len_exp lit_exp b1 =
          (case ?c1 of Inl e \<Rightarrow> Inl e
           | Inr s \<Rightarrow> bulk_loop powf junk1 ptr sz ratio len_exp lit_exp (?n1 s))"
      using True gl1 by (simp add: u1 num_def [symmetric])
    have e2: "bulk_loop powf junk2 ptr sz ratio len_exp lit_exp b2 =
          (case ?c2 of Inl e \<Rightarrow> Inl e
           | Inr s \<Rightarrow> bulk_loop powf junk2 ptr sz ratio len_exp lit_exp (?n2 s))"
      using lt2 gl2 by (simp add: u2 num2 [symmetric])
    have rel: "rel_sum (=)
           (\<lambda>s1 s2. rng s1 = rng s2 \<and>
              (\<forall>a. ptr \<le> a \<and> a < ptr + b_offs b1 + num \<longrightarrow> mem s1 a = mem s2 a)) ?c1 ?c2"
      unfolding offs by (rule generate_data_internal_rel [OF sc agree]) simp
    show ?thesis
    proof (cases ?c1)
      case (Inl e)
      with rel have "?c2 = Inl e" by (cases ?c2) auto
      with Inl show ?thesis unfolding e1 e2 by simp
    next
      case (Inr s1)
      with rel obtain s2 where s2: "?c2 = Inr s2" and r: "rng s1 = rng s2"
        "\<forall>a. ptr \<le> a \<and> a < ptr + b_offs b1 + num \<longrightarrow> mem s1 a = mem s2 a"
        by (cases ?c2) auto
      have step: "bulk_in_step ptr (?n1 s1) (?n2 s2)"
        using r by (simp add: bulk_in_step_def add.assoc offs)
      have "rel_sum (=) (bulk_in_step ptr)
           (bulk_loop powf junk1 ptr sz ratio len_exp lit_exp (?n1 s1))
           (bulk_loop powf junk2 ptr sz ratio len_exp lit_exp (?n2 s2))"
        by (rule "1.IH" [OF True num_def gl1 [symmetric] refl Inr step])
      with Inr s2 show ?thesis unfolding e1 e2 by simp
    qed
  qed
qed

lemma output_bytes_cong:
  "(\<forall>a. ptr \<le> a \<and> a < ptr + sz \<longrightarrow> m1 a = m2 a) \<Longrightarrow> output_bytes ptr sz m1 = output_bytes ptr sz m2"
  by (simp add: output_bytes_def)

subsection \<open>A generator that always returns \<open>0xFFF00000\<close>\<close>

lemma top_scan:
  assumes r: "rng t = rng_const 0xFFF00000"
    and shape: "cur_len t = 0 \<and> len_freq t 0 = 0 \<or> cur_len t = 255 \<and> (\<forall>k<255. len_freq t k = 0)"
    and f: "find_next_length powf_nat_exp 3 lit_exp samples t = Inr t1"
  shows "rng t1 = rng_const 0xFFF00000" and "cur_len t1 = 255" and "\<forall>k<255. len_freq t1 k = 0"
    and "filter is_write (trace t1) = filter is_write (trace t)"
    and "trace t1 = trace t \<or> (\<exists>b. trace t1 = trace t @ [Refill b])"
    and "cursor_i t1 = cursor_i t" and "last_was_match t1 = last_was_match t"
proof -
  show "cursor_i t1 = cursor_i t" and "last_was_match t1 = last_was_match t"
    and tr: "trace t1 = trace t \<or> (\<exists>b. trace t1 = trace t @ [Refill b])"
    using find_next_length_trace [OF f] by simp_all
  from tr show "filter is_write (trace t1) = filter is_write (trace t)" by auto
  have "rng t1 = rng_const 0xFFF00000 \<and> cur_len t1 = 255 \<and> (\<forall>k<255. len_freq t1 k = 0)"
    using f
  proof (cases rule: find_next_length_elim)
    case (scan c)
    from shape scan(1,4) have "c = 255"
      by (cases "c < 255") auto
    with scan shape r show ?thesis by auto
  next
    case (refilled s1 c)
    from refilled(2) have s1: "s1 = t\<lparr>len_freq := (\<lambda>k. if k < NUM_LEN then 0 else len_freq t k)(255 := LEN_PER_CHUNK),
           buffer := (\<lambda>a. if a < MAX_LEN
                           then literal_value powf_nat_exp lit_exp samples (rng_const 0xFFF00000)
                           else buffer t a),
           cur_len := NUM_LEN, rng := rng_const 0xFFF00000,
           trace := trace t @ [Refill (\<lambda>a. if a < MAX_LEN
                           then literal_value powf_nat_exp lit_exp samples (rng_const 0xFFF00000)
                           else buffer t a)]\<rparr>"
      unfolding refill_top [OF r] by simp
    have "c = 255"
      using refilled(3,6) unfolding s1 by (cases "c = 255") (simp_all add: NUM_LEN_def)
    then show ?thesis
      unfolding refilled(4) s1 by (simp add: NUM_LEN_def MAX_LEN_def MIN_LEN_def)
  qed
  then show "rng t1 = rng_const 0xFFF00000" and "cur_len t1 = 255" and "\<forall>k<255. len_freq t1 k = 0"
    by simp_all
qed

lemma repeat_branch_top:
  "\<not> fst (rand_double (rng_const 0xFFF00000)) < to_double (1 / 2)"
  by (simp add: rand_double_const_top to_double_half)

lemma top_inv_step:
  assumes P: "top_inv sz t" and lt: "cursor_i t < sz"
    and f: "find_next_length powf_nat_exp 3 lit_exp samples t = Inr t1"
  shows "top_inv sz (emit_run powf_nat_exp sz 2 lit_exp samples t1)"
proof -
  from P have r: "rng t = rng_const 0xFFF00000" by (simp add: top_inv_def)
  from P have shape: "cur_len t = 0 \<and> len_freq t 0 = 0 \<or> cur_len t = 255 \<and> (\<forall>k<255. len_freq t k = 0)"
    unfolding top_inv_def by blast
  note s = top_scan [OF r shape f]
  let ?t' = "emit_run powf_nat_exp sz 2 lit_exp samples t1"
  show ?thesis
  proof (cases "last_was_match t")
    case False
    with P have init: "cursor_i t = 0" "filter is_write (trace t) = []"
      unfolding top_inv_def by auto
    have t': "?t' = advance (clamp_len sz 0 258)
                (emit_match (clamp_len sz 0 258) ((take_length t1)\<lparr>rng := rng_const 0xFFF00000\<rparr>))"
      using False s(1,2,6,7) init(1)
      by (simp add: emit_run_unfold Let_def repeat_branch_top MIN_LEN_def)
    show ?thesis
      unfolding t' top_inv_def using s lt init
      by (auto simp: block_defs clamp_len_def)
  next
    case True
    with P obtain i where i: "last (trace t) = Match i (cursor_i t - i)" "i mod 259 = 0"
      "i \<le> cursor_i t" "cursor_i t = min sz (i + 258)"
      and w: "filter is_write (trace t) \<noteq> []"
        "hd (filter is_write (trace t)) = Match 0 (min 258 sz)"
      unfolding top_inv_def by auto
    from i(4) lt have ci: "cursor_i t = i + 258" by simp
    let ?len = "clamp_len sz (i + 259) (clamp_len sz (i + 258) 258)"
    have t': "?t' = advance ?len (emit_match ?len
                (break_literal powf_nat_exp lit_exp samples
                   ((take_length t1)\<lparr>rng := rng_const 0xFFF00000\<rparr>)))"
      using True s(1,2,6,7) ci
      by (simp add: emit_run_unfold Let_def repeat_branch_top MIN_LEN_def add.commute)
    have m: "(i + 259) mod 259 = 0" using i(2) by presburger
    show ?thesis
      unfolding t' top_inv_def using s lt w ci m
      by (auto simp: block_defs clamp_len_def generate_literals_closed split_beta)
  qed
qed

lemma generate_data_internal_top:
  assumes run: "generate_data_internal powf_nat_exp jf jb m ptr sz 2 3 lit_exp samples
                  (rng_const 0xFFF00000) = Inr s"
    and pos: "0 < sz"
  shows "rng s = rng_const 0xFFF00000"
    and "hd (filter is_write (trace s)) = Match 0 (min 258 sz)"
    and "\<exists>i. last (trace s) = Match i (sz - i) \<and> i mod 259 = 0 \<and> i \<le> sz \<and> sz \<le> i + 258"
proof -
  have "top_inv sz s \<and> \<not> cursor_i s < sz"
  proof (rule gen_loop_invariant [OF run [unfolded generate_data_internal_def],
        where P = "top_inv sz"])
    show "top_inv sz (init_state jf jb m ptr (rng_const 0xFFF00000))"
      by (simp add: top_inv_def init_state_def)
  qed (rule top_inv_step)
  moreover have "cursor_i s = sz"
    by (rule generate_data_internal_tiles(1) [OF run])
  ultimately have inv: "top_inv sz s" and c: "cursor_i s = sz" by simp_all
  from inv show "rng s = rng_const 0xFFF00000" by (simp add: top_inv_def)
  from inv c pos show "hd (filter is_write (trace s)) = Match 0 (min 258 sz)"
    and "\<exists>i. last (trace s) = Match i (sz - i) \<and> i mod 259 = 0 \<and> i \<le> sz \<and> sz \<le> i + 258"
    unfolding top_inv_def by auto
qed


lemma draws_in_range_top: "draws_in_range powf_nat_exp 3 n (rng_const 0xFFF00000)"
  by (rule draws_in_range_const)
     (simp add: length_of_draw_4095 NUM_LEN_def MAX_LEN_def MIN_LEN_def)

lemma bulk_loop_top_step:
  assumes r: "b_rng b = rng_const 0xFFF00000" and lt: "b_offs b < sz"
    and num: "num = (if sz - b_offs b > BLOCK_SIZE then BLOCK_SIZE else sz - b_offs b)"
  obtains smp and s :: gen_state and i where
    "bulk_loop powf_nat_exp junk ptr sz 2 3 lit_exp b =
       bulk_loop powf_nat_exp junk ptr sz 2 3 lit_exp
         (b\<lparr>b_samples := smp, b_offs := b_offs b + num, b_mem := mem s,
            b_rng := rng_const 0xFFF00000,
            b_blocks := b_blocks b @ [(b_offs b, num, smp, trace s)]\<rparr>)"
    and "hd (filter is_write (trace s)) = Match 0 (min 258 num)"
    and "last (trace s) = Match i (num - i)" and "i mod 259 = 0" and "i \<le> num"
    and "num \<le> i + 258"
proof -
  have pos: "0 < num" using lt num by (simp add: BLOCK_SIZE_def)
  obtain smp where
    gl: "generate_literals powf_nat_exp (b_samples b) 0 SAMPLE_SIZE lit_exp None (b_rng b)
           = (smp, rng_const 0xFFF00000)"
    by (simp add: generate_literals_closed0 r)
  obtain s where gd: "generate_data_internal powf_nat_exp (fst (junk (b_offs b)))
      (snd (junk (b_offs b))) (b_mem b) (ptr + b_offs b) num 2 3 lit_exp (Some smp)
      (rng_const 0xFFF00000) = Inr s"
    using generate_data_internal_ok [OF draws_in_range_top] by blast
  note top = generate_data_internal_top [OF gd pos]
  from top(3) obtain i where i: "last (trace s) = Match i (num - i)" "i mod 259 = 0" "i \<le> num"
    "num \<le> i + 258"
    by (elim exE conjE)
  have "bulk_loop powf_nat_exp junk ptr sz 2 3 lit_exp b =
           bulk_loop powf_nat_exp junk ptr sz 2 3 lit_exp
             (b\<lparr>b_samples := smp, b_offs := b_offs b + num, b_mem := mem s,
                b_rng := rng_const 0xFFF00000,
                b_blocks := b_blocks b @ [(b_offs b, num, smp, trace s)]\<rparr>)"
    using lt gl gd top(1)
    by (subst bulk_loop.simps) (simp add: num [symmetric])
  then show thesis using top(2) i by (rule that)
qed

lemma bulk_loop_done: "\<not> b_offs b < sz \<Longrightarrow> bulk_loop powf junk ptr sz ratio len_exp lit_exp b = Inr b"
  by (subst bulk_loop.simps) simp

subsection \<open>Calls that end at the assertion\<close>

text \<open>
  The first refill of a call draws \<^verbatim>\<open>MAX_LEN\<close> values for the scratch buffer
  and then the length samples. When the first length sample is out of range the
  assertion fails and the call ends there.
\<close>

lemma top_draw_class:
  assumes "powf 1 (to_float len_exp) = 1" and "g 0 = 0xFFFFFFFF"
  shows "length_of_draw powf len_exp (fst (rand_double g)) = NUM_LEN"
proof -
  have u: "fst (rand_double g) = 4294967295 / 4294967296"
    using assms(2) by (simp add: rand_double_value)
  show ?thesis
    by (simp add: length_of_draw_def u to_float_top_draw assms(1) NUM_LEN_def MAX_LEN_def
        MIN_LEN_def)
qed

lemma zero_exponent_class:
  assumes "to_float len_exp = 0" and "powf (to_float u) 0 = 1"
  shows "length_of_draw powf len_exp u = NUM_LEN"
  using assms by (simp add: length_of_draw_def NUM_LEN_def MAX_LEN_def MIN_LEN_def)

lemma generate_lengths_aborts:
  assumes "NUM_LEN \<le> length_of_draw powf len_exp (fst (rand_double g))"
  shows "generate_lengths powf lf LEN_PER_CHUNK len_exp g = Inl AssertionFailed"
proof -
  have "generate_lengths_loop powf len_exp LEN_PER_CHUNK 0 lf0 g = Inl AssertionFailed" for lf0
    using assms
    by (subst generate_lengths_loop.simps)
       (simp add: LEN_PER_CHUNK_def split_beta Let_def)
  then show ?thesis
    by (simp add: generate_lengths_def)
qed

lemma refill_aborts:
  assumes "NUM_LEN \<le> length_of_draw powf len_exp (fst (rand_double (shift MAX_LEN (rng s))))"
  shows "refill powf len_exp lit_exp samples s = Inl AssertionFailed"
  by (simp add: refill_def generate_literals_closed0 generate_lengths_aborts [OF assms])

lemma generate_data_internal_aborts:
  assumes "NUM_LEN \<le> length_of_draw powf len_exp (fst (rand_double (shift MAX_LEN g)))"
    and "0 < sz"
  shows "generate_data_internal powf jf jb m ptr sz ratio len_exp lit_exp samples g
         = Inl AssertionFailed"
proof -
  let ?s0 = "init_state jf jb m ptr g"
  have "refill powf len_exp lit_exp samples ?s0 = Inl AssertionFailed"
    by (rule refill_aborts) (simp add: init_state_def assms(1))
  then have "find_next_length powf len_exp lit_exp samples ?s0 = Inl AssertionFailed"
    by (subst find_next_length_refill) (simp_all add: init_state_def)
  moreover have "cursor_i ?s0 < sz" using assms(2) by (simp add: init_state_def)
  ultimately show ?thesis
    by (simp add: generate_data_internal_def gen_loop_step)
qed

lemma lzdg_generate_data_bulk_aborts:
  assumes "NUM_LEN \<le> length_of_draw powf len_exp
             (fst (rand_double (shift (SAMPLE_SIZE + MAX_LEN) g)))"
    and "0 < sz"
  shows "lzdg_generate_data_bulk powf junk js m ptr sz ratio len_exp lit_exp g
         = Inl AssertionFailed"
proof -
  have "NUM_LEN \<le> length_of_draw powf len_exp
          (fst (rand_double (shift MAX_LEN (shift SAMPLE_SIZE g))))"
    using assms(1) by (simp add: add.commute)
  note ab = generate_data_internal_aborts [OF this]
  show ?thesis
    unfolding lzdg_generate_data_bulk_def
    by (subst bulk_loop.simps) (simp add: assms(2) generate_literals_closed0 ab BLOCK_SIZE_def)
qed

lemma to_float_tiny: "to_float (1 / 10 ^ 50) = 0"
  by code_simp

lemma powf_nat_exp_0: "powf_nat_exp x 0 = 1"
  by (simp add: powf_nat_exp_def to_float_1)

subsection \<open>Calls that return\<close>

text \<open>
  When a call returns, the cursor is at \<open>size\<close>: the runs written tile
  \<open>[0, size)\<close> in order and no byte of the store outside
  \<open>[ptr, ptr + size)\<close> changes. For the bulk entry point the blocks tile the
  destination and the runs of each block tile the block.
\<close>

lemma returned_call_exact_size:
  "(lzdg_generate_data powf jf jb m ptr sz ratio len_exp lit_exp g = Inr s \<longrightarrow>
      cursor_i s = sz \<and> cursor_p s = ptr + sz \<and>
      run_log (tiling sz) 0 (trace s) = Some sz \<and>
      (\<forall>a. a < ptr \<or> ptr + sz \<le> a \<longrightarrow> mem s a = m a)) \<and>
   (lzdg_generate_data_bulk powf junk js m ptr sz ratio len_exp lit_exp g = Inr b \<longrightarrow>
      b_offs b = sz \<and>
      run_log (block_tiling sz) 0 (b_blocks b) = Some sz \<and>
      (\<forall>a. a < ptr \<or> ptr + sz \<le> a \<longrightarrow> b_mem b a = m a))"
proof (intro conjI impI)
  assume s: "lzdg_generate_data powf jf jb m ptr sz ratio len_exp lit_exp g = Inr s"
  note t = generate_data_internal_tiles [OF s [unfolded lzdg_generate_data_def]]
  show "cursor_i s = sz" by (rule t(1))
  show "cursor_p s = ptr + sz" by (rule t(2))
  show "run_log (tiling sz) 0 (trace s) = Some sz" by (rule t(3))
  show "\<forall>a. a < ptr \<or> ptr + sz \<le> a \<longrightarrow> mem s a = m a" by (rule t(4))
next
  let ?b0 = "\<lparr>b_samples = js, b_offs = 0, b_mem = m, b_rng = g, b_blocks = []\<rparr>"
  assume "lzdg_generate_data_bulk powf junk js m ptr sz ratio len_exp lit_exp g = Inr b"
  then have b: "bulk_loop powf junk ptr sz ratio len_exp lit_exp ?b0 = Inr b"
    by (simp add: lzdg_generate_data_bulk_def)
  have "bulk_tiling_inv sz ptr m b \<and> \<not> b_offs b < sz"
  proof (rule bulk_loop_invariant [OF b, where P = "bulk_tiling_inv sz ptr m"])
    show "bulk_tiling_inv sz ptr m ?b0"
      by (simp add: bulk_tiling_inv_def)
  qed (rule bulk_tiling_inv_step)
  then show "b_offs b = sz" and "run_log (block_tiling sz) 0 (b_blocks b) = Some sz"
    and "\<forall>a. a < ptr \<or> ptr + sz \<le> a \<longrightarrow> b_mem b a = m a"
    by (auto simp: bulk_tiling_inv_def)
qed

text \<open>
  Every byte of \<open>[ptr, ptr + size)\<close> is overwritten: the bytes found there
  after the call do not depend on what the store and the uninitialised locals
  held before.
\<close>

lemma returned_call_overwrites:
  assumes "generate_data_internal powf jf jb m ptr sz ratio len_exp lit_exp samples g = Inr s"
  shows "\<exists>s'. generate_data_internal powf jf' jb' m' ptr sz ratio len_exp lit_exp samples g
                 = Inr s' \<and>
              output_bytes ptr sz (mem s') = output_bytes ptr sz (mem s)"
proof -
  let ?r = "generate_data_internal powf jf' jb' m' ptr sz ratio len_exp lit_exp samples g"
  have "same_corpus samples samples"
    by (cases samples) (simp_all add: same_corpus_def)
  then have "rel_sum (=)
           (\<lambda>s1 s2. rng s1 = rng s2 \<and> (\<forall>a. ptr \<le> a \<and> a < ptr + sz \<longrightarrow> mem s1 a = mem s2 a))
           (generate_data_internal powf jf jb m ptr sz ratio len_exp lit_exp samples g) ?r"
    by (rule generate_data_internal_rel) auto
  with assms obtain s' where s': "?r = Inr s'"
    and eq: "\<forall>a. ptr \<le> a \<and> a < ptr + sz \<longrightarrow> mem s a = mem s' a"
    by (cases ?r) auto
  from eq have "output_bytes ptr sz (mem s') = output_bytes ptr sz (mem s)"
    by (intro output_bytes_cong) simp
  with s' show ?thesis by blast
qed

text \<open>
  A call draws at most \<open>draws_per_byte\<close> values for each byte of output (the
  bulk entry point at most \<open>bulk_draws_per_byte\<close>); when the assertion of
  \<^verbatim>\<open>generate_lengths\<close> holds for that many values of the generator, the call
  returns with the cursor at \<open>size\<close> after at most \<open>size\<close> passes, each of
  which issues one length and refills at most once, and the bulk entry point
  returns after at most \<open>size\<close> blocks. A refill leaves \<^verbatim>\<open>LEN_PER_CHUNK\<close>
  units in the table, and a pass advances the cursor by at least one byte.
\<close>

lemma call_returns_in_range:
  "(draws_in_range powf len_exp (draws_per_byte * sz) g \<longrightarrow>
      (\<exists>s. generate_data_internal powf jf jb m ptr sz ratio len_exp lit_exp samples g = Inr s \<and>
           cursor_i s = sz \<and>
           length (filter is_issue (trace s)) \<le> sz \<and>
           length (filter is_refill (trace s)) \<le> length (filter is_issue (trace s)))) \<and>
   (draws_in_range powf len_exp (bulk_draws_per_byte * sz) g \<longrightarrow>
      (\<exists>b. lzdg_generate_data_bulk powf junk js m ptr sz ratio len_exp lit_exp g = Inr b \<and>
           b_offs b = sz \<and> length (b_blocks b) \<le> sz)) \<and>
   (\<forall>s s'. refill powf len_exp lit_exp samples s = Inr s' \<longrightarrow>
      (\<Sum>k<NUM_LEN. len_freq s' k) = LEN_PER_CHUNK \<and> (\<exists>k<NUM_LEN. len_freq s' k \<noteq> 0)) \<and>
   (\<forall>s s'. cursor_i s < sz \<and> iteration powf sz ratio len_exp lit_exp samples s = Inr s' \<longrightarrow>
      cursor_i s < cursor_i s')"
proof (intro conjI allI impI)
  assume "draws_in_range powf len_exp (draws_per_byte * sz) g"
  from generate_data_internal_ok [OF this] obtain s where
    s: "generate_data_internal powf jf jb m ptr sz ratio len_exp lit_exp samples g = Inr s"
    by blast
  from generate_data_internal_passes [OF s] generate_data_internal_tiles(1) [OF s] s
  show "\<exists>s. generate_data_internal powf jf jb m ptr sz ratio len_exp lit_exp samples g = Inr s \<and>
              cursor_i s = sz \<and>
              length (filter is_issue (trace s)) \<le> sz \<and>
              length (filter is_refill (trace s)) \<le> length (filter is_issue (trace s))"
    unfolding passes_inv_def by auto
next
  assume "draws_in_range powf len_exp (bulk_draws_per_byte * sz) g"
  from lzdg_generate_data_bulk_ok [OF this] obtain b where
    b: "lzdg_generate_data_bulk powf junk js m ptr sz ratio len_exp lit_exp g = Inr b"
    by blast
  from bulk_blocks_count [OF b [unfolded lzdg_generate_data_bulk_def]] b
  show "\<exists>b. lzdg_generate_data_bulk powf junk js m ptr sz ratio len_exp lit_exp g = Inr b \<and>
              b_offs b = sz \<and> length (b_blocks b) \<le> sz"
    by auto
next
  fix s s' assume "refill powf len_exp lit_exp samples s = Inr s'"
  then show "(\<Sum>k<NUM_LEN. len_freq s' k) = LEN_PER_CHUNK" and "\<exists>k<NUM_LEN. len_freq s' k \<noteq> 0"
    by (rule refill_result(3), rule refill_result(2))
next
  fix s s'
  assume "cursor_i s < sz \<and> iteration powf sz ratio len_exp lit_exp samples s = Inr s'"
  then show "cursor_i s < cursor_i s'"
    using iteration_advances by blast
qed

section \<open>The claims\<close>

text \<open>
  C1. The claim: for every size and every ratio, both entry points write exactly
  \<open>size\<close> bytes and return with the cursor at \<open>size\<close>. A call with
  \<open>size > 0\<close> can end at the assertion of \<^verbatim>\<open>generate_lengths\<close> instead (the
  defect of C5): the first refill draws \<^verbatim>\<open>MAX_LEN\<close> values for the scratch
  buffer and then the length samples, and \<^verbatim>\<open>lzdg_generate_data_bulk\<close> draws
  \<^verbatim>\<open>SAMPLE_SIZE\<close> values for the corpus before that. When the generator
  returns \<open>0xFFFFFFFF\<close> at the first length sample, the call ends in the failed
  assertion, before any byte of the destination is written.
\<close>

theorem entry_points_abort:
  assumes "powf 1 (to_float len_exp) = 1" and "0 < sz"
  shows "(g MAX_LEN = 0xFFFFFFFF \<longrightarrow>
            lzdg_generate_data powf jf jb m ptr sz ratio len_exp lit_exp g
              = Inl AssertionFailed) \<and>
         (g' (SAMPLE_SIZE + MAX_LEN) = 0xFFFFFFFF \<longrightarrow>
            lzdg_generate_data_bulk powf junk js m ptr sz ratio len_exp lit_exp g'
              = Inl AssertionFailed)"
proof (intro conjI impI)
  assume "g MAX_LEN = 0xFFFFFFFF"
  then have "shift MAX_LEN g 0 = 0xFFFFFFFF" by (simp add: shift_def)
  from top_draw_class [of powf len_exp "shift MAX_LEN g", OF assms(1) this]
  show "lzdg_generate_data powf jf jb m ptr sz ratio len_exp lit_exp g = Inl AssertionFailed"
    unfolding lzdg_generate_data_def
    by (intro generate_data_internal_aborts assms(2)) simp
next
  assume "g' (SAMPLE_SIZE + MAX_LEN) = 0xFFFFFFFF"
  then have "shift (SAMPLE_SIZE + MAX_LEN) g' 0 = 0xFFFFFFFF" by (simp add: shift_def)
  from top_draw_class [of powf len_exp "shift (SAMPLE_SIZE + MAX_LEN) g'", OF assms(1) this]
  show "lzdg_generate_data_bulk powf junk js m ptr sz ratio len_exp lit_exp g'
          = Inl AssertionFailed"
    by (intro lzdg_generate_data_bulk_aborts assms(2)) simp
qed

theorem entry_points_abort_witness:
  "powf_nat_exp 1 (to_float 3) = 1 \<and> (0::nat) < 10000 \<and>
   rng_top_at MAX_LEN MAX_LEN = 0xFFFFFFFF \<and>
   lzdg_generate_data powf_nat_exp fixture_freq fixture_buf fixture_mem 100 10000 2 3 3
     (rng_top_at MAX_LEN) = Inl AssertionFailed \<and>
   rng_top_at (SAMPLE_SIZE + MAX_LEN) (SAMPLE_SIZE + MAX_LEN) = 0xFFFFFFFF \<and>
   lzdg_generate_data_bulk powf_nat_exp (\<lambda>_. (fixture_freq, fixture_buf)) fixture_buf
     fixture_mem 100 10000 2 3 3 (rng_top_at (SAMPLE_SIZE + MAX_LEN)) = Inl AssertionFailed"
proof -
  have h1: "powf_nat_exp 1 (to_float 3) = 1" by (rule powf_nat_exp_1)
  have h2: "(0::nat) < 10000" by simp
  have h3: "rng_top_at n n = 0xFFFFFFFF" for n by (simp add: rng_top_at_def)
  show ?thesis
    using h1 h2 h3
      entry_points_abort [where powf = powf_nat_exp and len_exp = 3 and sz = 10000
        and g = "rng_top_at MAX_LEN" and jf = fixture_freq and jb = fixture_buf
        and m = fixture_mem and ptr = 100 and ratio = 2 and lit_exp = 3
        and g' = "rng_top_at (SAMPLE_SIZE + MAX_LEN)"
        and junk = "\<lambda>_. (fixture_freq, fixture_buf)" and js = fixture_buf, OF h1 h2]
    by simp
qed

text \<open>
  C2. The claim: no two repeat runs are back-to-back in any output of
  \<^verbatim>\<open>generate_data_internal\<close>, hence of both entry points. The flag
  \<^verbatim>\<open>last_was_match\<close> is a local of \<^verbatim>\<open>generate_data_internal\<close> and starts at 0
  in every call, and \<^verbatim>\<open>lzdg_generate_data_bulk\<close> makes one call for each
  block. With size \<open>BLOCK_SIZE + 1 = 1048577\<close>, ratio 2 and a generator that always
  returns \<open>0xFFF00000\<close> (every pass takes the repeat branch with length 258),
  the first block ends with the repeat run at offsets \<open>[1048432, 1048576)\<close>
  and the second block, at offset 1048576, starts with a repeat run: two repeat
  runs of the output with no literal byte between them.
\<close>

theorem repeat_runs_across_blocks_counterexample:
  "map block_ends (blocks_of (lzdg_generate_data_bulk powf_nat_exp (\<lambda>_. (fixture_freq, fixture_buf))
      fixture_buf fixture_mem 100 1048577 2 3 3 (rng_const 0xFFF00000)))
   = [(0, 1048576, Match 0 258, Match 1048432 144), (1048576, 1, Match 0 1, Match 0 1)]"
proof -
  let ?junk = "\<lambda>_::nat. (fixture_freq, fixture_buf)"
  let ?b0 = "\<lparr>b_samples = fixture_buf, b_offs = 0, b_mem = fixture_mem,
              b_rng = rng_const 0xFFF00000, b_blocks = []\<rparr>"
  have r0: "b_rng ?b0 = rng_const 0xFFF00000" and lt0: "b_offs ?b0 < 1048577"
    and n0: "1048576 = (if 1048577 - b_offs ?b0 > BLOCK_SIZE then BLOCK_SIZE
                        else 1048577 - b_offs ?b0)"
    by (simp_all add: BLOCK_SIZE_def)
  obtain smp1 and s1 :: gen_state and i1 where
    e1: "bulk_loop powf_nat_exp ?junk 100 1048577 2 3 3 ?b0 =
           bulk_loop powf_nat_exp ?junk 100 1048577 2 3 3
             (?b0\<lparr>b_samples := smp1, b_offs := b_offs ?b0 + 1048576, b_mem := mem s1,
                b_rng := rng_const 0xFFF00000,
                b_blocks := b_blocks ?b0 @ [(b_offs ?b0, 1048576, smp1, trace s1)]\<rparr>)"
    and h1: "hd (filter is_write (trace s1)) = Match 0 (min 258 1048576)"
    and l1: "last (trace s1) = Match i1 (1048576 - i1)" "i1 mod 259 = 0" "i1 \<le> 1048576"
      "1048576 \<le> i1 + 258"
    by (rule bulk_loop_top_step [OF r0 lt0 n0])
  let ?b1 = "\<lparr>b_samples = smp1, b_offs = 1048576, b_mem = mem s1,
              b_rng = rng_const 0xFFF00000, b_blocks = [(0, 1048576, smp1, trace s1)]\<rparr>"
  have r1: "b_rng ?b1 = rng_const 0xFFF00000" and lt1: "b_offs ?b1 < 1048577"
    and n1: "1 = (if 1048577 - b_offs ?b1 > BLOCK_SIZE then BLOCK_SIZE
                  else 1048577 - b_offs ?b1)"
    by (simp_all add: BLOCK_SIZE_def)
  obtain smp2 and s2 :: gen_state and i2 where
    e2: "bulk_loop powf_nat_exp ?junk 100 1048577 2 3 3 ?b1 =
           bulk_loop powf_nat_exp ?junk 100 1048577 2 3 3
             (?b1\<lparr>b_samples := smp2, b_offs := b_offs ?b1 + 1, b_mem := mem s2,
                b_rng := rng_const 0xFFF00000,
                b_blocks := b_blocks ?b1 @ [(b_offs ?b1, 1, smp2, trace s2)]\<rparr>)"
    and h2: "hd (filter is_write (trace s2)) = Match 0 (min 258 1)"
    and l2: "last (trace s2) = Match i2 (1 - i2)" "i2 mod 259 = 0" "i2 \<le> 1" "1 \<le> i2 + 258"
    by (rule bulk_loop_top_step [OF r1 lt1 n1])
  from l1(2) obtain q where "i1 = 259 * q" by (auto simp: mod_eq_0_iff_dvd)
  with l1(3,4) have i1: "i1 = 1048432" by simp
  from l2(2) obtain q' where "i2 = 259 * q'" by (auto simp: mod_eq_0_iff_dvd)
  with l2(3) have i2: "i2 = 0" by simp
  have "lzdg_generate_data_bulk powf_nat_exp ?junk fixture_buf fixture_mem 100 1048577 2 3 3
          (rng_const 0xFFF00000)
        = Inr \<lparr>b_samples = smp2, b_offs = 1048577, b_mem = mem s2,
               b_rng = rng_const 0xFFF00000,
               b_blocks = [(0, 1048576, smp1, trace s1), (1048576, 1, smp2, trace s2)]\<rparr>"
    unfolding lzdg_generate_data_bulk_def e1
    by (simp add: e2 bulk_loop_done)
  then show ?thesis
    by (simp add: blocks_of_def block_ends_def h1 h2 l1(1) l2(1) i1 i2)
qed

text \<open>
  C2, amended. Within one call of \<^verbatim>\<open>generate_data_internal\<close> (the whole
  output of \<^verbatim>\<open>lzdg_generate_data\<close>, each block of
  \<^verbatim>\<open>lzdg_generate_data_bulk\<close>) no repeat run follows a repeat run directly:
  when the repeat branch is taken after a repeat run, exactly one forced literal
  byte is written first and the repeat run starts at the next offset; every
  literal run has at least one byte.
\<close>

theorem repeat_runs_separated:
  "(generate_data_internal powf jf jb m ptr sz ratio len_exp lit_exp samples g = Inr s \<longrightarrow>
      run_log separated NoRepeat (trace s)
        = Some (if last_was_match s then AfterRepeat else NoRepeat)) \<and>
   (lzdg_generate_data_bulk powf junk js m ptr sz ratio len_exp lit_exp g = Inr b \<longrightarrow>
      (\<forall>(offs, num, smp, t) \<in> set (b_blocks b). run_log separated NoRepeat t \<noteq> None))"
proof (intro conjI impI)
  assume "generate_data_internal powf jf jb m ptr sz ratio len_exp lit_exp samples g = Inr s"
  from generate_data_internal_separated [OF this]
  show "run_log separated NoRepeat (trace s)
          = Some (if last_was_match s then AfterRepeat else NoRepeat)"
    unfolding separated_inv_def by blast
next
  assume b: "lzdg_generate_data_bulk powf junk js m ptr sz ratio len_exp lit_exp g = Inr b"
  show "\<forall>(offs, num, smp, t) \<in> set (b_blocks b). run_log separated NoRepeat t \<noteq> None"
  proof (rule bulk_blocks_all [OF b [unfolded lzdg_generate_data_bulk_def],
        where Q = "\<lambda>num smp t. run_log separated NoRepeat t \<noteq> None"])
    fix jf jb m p num smp g s
    assume "generate_data_internal powf jf jb m p num ratio len_exp lit_exp (Some smp) g = Inr s"
    from generate_data_internal_separated [OF this]
    show "run_log separated NoRepeat (trace s) \<noteq> None"
      by (simp add: separated_inv_def)
  qed simp
qed

theorem repeat_runs_separated_witness:
  "\<exists>s b. generate_data_internal powf_nat_exp fixture_freq fixture_buf fixture_mem 100 36 2 3 3
            None (rng_const 0x80000000) = Inr s \<and>
         lzdg_generate_data_bulk powf_nat_exp (\<lambda>_. (fixture_freq, fixture_buf)) fixture_buf
            fixture_mem 100 36 2 3 3 (rng_const 0x80000000) = Inr b \<and>
         run_log separated NoRepeat (trace s)
           = Some (if last_was_match s then AfterRepeat else NoRepeat) \<and>
         (\<forall>(offs, num, smp, t) \<in> set (b_blocks b). run_log separated NoRepeat t \<noteq> None)"
proof -
  obtain s where s: "generate_data_internal powf_nat_exp fixture_freq fixture_buf fixture_mem
      100 36 2 3 3 None (rng_const 0x80000000) = Inr s"
    using generate_data_internal_ok [OF draws_in_range_half] by blast
  obtain b where b: "lzdg_generate_data_bulk powf_nat_exp (\<lambda>_. (fixture_freq, fixture_buf))
      fixture_buf fixture_mem 100 36 2 3 3 (rng_const 0x80000000) = Inr b"
    using lzdg_generate_data_bulk_ok [OF draws_in_range_half] by blast
  from repeat_runs_separated [of powf_nat_exp fixture_freq fixture_buf fixture_mem 100 36 2 3 3
      None "rng_const 0x80000000" s "\<lambda>_. (fixture_freq, fixture_buf)" fixture_buf b] s b
  show ?thesis by blast
qed

text \<open>
  C3. The claim: with ratio 1.0 the test \<^verbatim>\<open>rand_double() < 1.0 / ratio\<close> is
  false for every draw, so the output is made of repeat runs. It is the other
  way round: \<open>1.0 / 1.0 = 1\<close> and every draw is below 1, so the literal branch
  is always taken. At ratio 1, size 300 and a generator that always returns
  \<open>0xFFF00000\<close> the output is two literal runs and no repeat run.
\<close>

theorem ratio_one_counterexample:
  "fst (rand_double (rng_const 0xFFF00000)) < to_double (1 / 1) \<and>
   filter is_write (log_of (lzdg_generate_data powf_nat_exp fixture_freq fixture_buf fixture_mem
      100 300 1 3 3 (rng_const 0xFFF00000)))
   = [Literals 0 258, Literals 258 42]"
  by (simp add: run_simps refill_top rand_double_const_top to_double_1)

text \<open>
  C3, amended. With ratio 1.0 the test selects the literal branch at every
  draw, so every run of the output is a literal run: the log of a call that
  returns holds no repeat run and no forced literal.
\<close>

theorem ratio_one_only_literals:
  "fst (rand_double g') < to_double (1 / 1) \<and>
   (generate_data_internal powf jf jb m ptr sz 1 len_exp lit_exp samples g = Inr s \<longrightarrow>
      (\<forall>off len. Match off len \<notin> set (trace s)) \<and>
      (\<forall>off. BreakLiteral off \<notin> set (trace s)))"
proof (intro conjI impI)
  show "fst (rand_double g') < to_double (1 / 1)" by (rule literal_branch_at_ratio_1)
next
  assume "generate_data_internal powf jf jb m ptr sz 1 len_exp lit_exp samples g = Inr s"
  from generate_data_internal_literal_only [OF this]
  show "\<forall>off len. Match off len \<notin> set (trace s)" and "\<forall>off. BreakLiteral off \<notin> set (trace s)"
    unfolding literal_only_def by blast+
qed

theorem ratio_one_only_literals_witness:
  "\<exists>s. generate_data_internal powf_nat_exp fixture_freq fixture_buf fixture_mem 100 10000 1 3 3
          None (rng_const 0x80000000) = Inr s \<and>
       fst (rand_double (rng_const 0x80000000)) < to_double (1 / 1) \<and>
       (\<forall>off len. Match off len \<notin> set (trace s)) \<and>
       (\<forall>off. BreakLiteral off \<notin> set (trace s))"
proof -
  obtain s where s: "generate_data_internal powf_nat_exp fixture_freq fixture_buf fixture_mem
      100 10000 1 3 3 None (rng_const 0x80000000) = Inr s"
    using generate_data_internal_ok [OF draws_in_range_half] by blast
  from ratio_one_only_literals [of "rng_const 0x80000000" powf_nat_exp fixture_freq fixture_buf
      fixture_mem 100 10000 3 3 None "rng_const 0x80000000" s] s
  show ?thesis by blast
qed

text \<open>
  C4. The claim: for valid parameters a generation call always terminates with
  the cursor at \<open>size\<close>. A call with \<open>size > 0\<close> ends at the assertion of
  \<^verbatim>\<open>generate_lengths\<close> (the defect of C5) when the generator returns
  \<open>0xFFFFFFFF\<close> at the first length sample, in either literal mode. It does so
  for every generator when the length exponent is so small that
  \<^verbatim>\<open>(float) len_exp\<close> is 0, as for \<open>10\<^sup>-\<^sup>5\<^sup>0\<close>: with \<open>powf(x, 0) = 1\<close> every
  length sample is \<^verbatim>\<open>NUM_LEN\<close>.
\<close>

theorem generation_aborts:
  assumes "0 < sz"
  shows "(powf 1 (to_float len_exp) = 1 \<and> g MAX_LEN = 0xFFFFFFFF \<longrightarrow>
            generate_data_internal powf jf jb m ptr sz ratio len_exp lit_exp samples g
              = Inl AssertionFailed) \<and>
         (to_float len_exp' = 0 \<and> (\<forall>x. powf x 0 = 1) \<longrightarrow>
            generate_data_internal powf jf jb m ptr sz ratio len_exp' lit_exp samples g'
              = Inl AssertionFailed)"
proof (intro conjI impI)
  assume h: "powf 1 (to_float len_exp) = 1 \<and> g MAX_LEN = 0xFFFFFFFF"
  then have "shift MAX_LEN g 0 = 0xFFFFFFFF" by (simp add: shift_def)
  from top_draw_class [of powf len_exp "shift MAX_LEN g", OF conjunct1 [OF h] this]
  show "generate_data_internal powf jf jb m ptr sz ratio len_exp lit_exp samples g
          = Inl AssertionFailed"
    by (intro generate_data_internal_aborts assms) simp
next
  assume h: "to_float len_exp' = 0 \<and> (\<forall>x. powf x 0 = 1)"
  then have "length_of_draw powf len_exp' (fst (rand_double (shift MAX_LEN g'))) = NUM_LEN"
    by (intro zero_exponent_class) simp_all
  then show "generate_data_internal powf jf jb m ptr sz ratio len_exp' lit_exp samples g'
          = Inl AssertionFailed"
    by (intro generate_data_internal_aborts assms) simp
qed

theorem generation_aborts_witness:
  "(0::nat) < 36 \<and>
   powf_nat_exp 1 (to_float 3) = 1 \<and> rng_top_at MAX_LEN MAX_LEN = 0xFFFFFFFF \<and>
   generate_data_internal powf_nat_exp fixture_freq fixture_buf fixture_mem 100 36 2 3 3 None
     (rng_top_at MAX_LEN) = Inl AssertionFailed \<and>
   to_float (1 / 10 ^ 50) = 0 \<and> (\<forall>x. powf_nat_exp x 0 = 1) \<and>
   generate_data_internal powf_nat_exp fixture_freq fixture_buf fixture_mem 100 36 2
     (1 / 10 ^ 50) 3 None (rng_const 0x80000000) = Inl AssertionFailed"
proof -
  have h0: "(0::nat) < 36" by simp
  have h1: "powf_nat_exp 1 (to_float 3) = 1" by (rule powf_nat_exp_1)
  have h2: "rng_top_at MAX_LEN MAX_LEN = 0xFFFFFFFF" by (simp add: rng_top_at_def)
  have h3: "to_float (1 / 10 ^ 50) = 0" by (rule to_float_tiny)
  have h4: "\<forall>x. powf_nat_exp x 0 = 1" by (simp add: powf_nat_exp_0)
  from generation_aborts [where sz = 36 and powf = powf_nat_exp and len_exp = 3
      and g = "rng_top_at MAX_LEN" and jf = fixture_freq and jb = fixture_buf
      and m = fixture_mem and ptr = 100 and ratio = 2 and lit_exp = 3 and samples = None
      and len_exp' = "1 / 10 ^ 50" and g' = "rng_const 0x80000000", OF h0] h0 h1 h2 h3 h4
  show ?thesis by blast
qed

text \<open>
  C5. The claim: for every valid exponent and every draw, the sampled length
  class is below 256, so the assertion of \<^verbatim>\<open>generate_lengths\<close> never fires.
  The code narrows the draw to \<^verbatim>\<open>float\<close> first. When \<^verbatim>\<open>pcg32_random\<close>
  returns \<open>0xFFFFFFFF\<close> the double \<open>1 - 2\<^sup>-\<^sup>3\<^sup>2\<close> rounds to \<open>1.0f\<close>; for any
  \<^verbatim>\<open>powf\<close> with \<open>powf(1, y) = 1\<close> the class is then exactly \<^verbatim>\<open>NUM_LEN\<close> and the
  assertion \<^verbatim>\<open>len < NUM_LEN\<close> fails at the first sample of the refill.
\<close>

theorem generate_lengths_assertion_fires:
  assumes "powf 1 (to_float len_exp) = 1" and "g 0 = 0xFFFFFFFF"
  shows "length_of_draw powf len_exp (fst (rand_double g)) = NUM_LEN \<and>
         generate_lengths powf lf LEN_PER_CHUNK len_exp g = Inl AssertionFailed"
proof -
  have u: "fst (rand_double g) = 4294967295 / 4294967296"
    using assms(2) by (simp add: rand_double_value)
  have len: "length_of_draw powf len_exp (fst (rand_double g)) = NUM_LEN"
    by (simp add: length_of_draw_def u to_float_top_draw assms(1))
  have "generate_lengths_loop powf len_exp LEN_PER_CHUNK 0 lf0 g = Inl AssertionFailed" for lf0
    using len
    by (subst generate_lengths_loop.simps)
       (simp add: LEN_PER_CHUNK_def split_beta Let_def)
  with len show ?thesis
    by (simp add: generate_lengths_def)
qed

theorem generate_lengths_assertion_fires_witness:
  "powf_nat_exp 1 (to_float 3) = 1 \<and> rng_const 0xFFFFFFFF 0 = 0xFFFFFFFF \<and>
   length_of_draw powf_nat_exp 3 (fst (rand_double (rng_const 0xFFFFFFFF))) = NUM_LEN \<and>
   generate_lengths powf_nat_exp (\<lambda>_. 0) LEN_PER_CHUNK 3 (rng_const 0xFFFFFFFF)
     = Inl AssertionFailed"
proof -
  have h1: "powf_nat_exp 1 (to_float 3) = 1" by (rule powf_nat_exp_1)
  have h2: "rng_const 0xFFFFFFFF 0 = 0xFFFFFFFF" by (simp add: rng_const_def)
  show ?thesis
    using h1 h2 generate_lengths_assertion_fires
            [of powf_nat_exp 3 "rng_const 0xFFFFFFFF" "\<lambda>_. 0", OF h1 h2]
    by simp
qed

text \<open>
  C6. \<^verbatim>\<open>lzdg_generate_data_bulk\<close> works through the destination in consecutive
  blocks of \<^verbatim>\<open>BLOCK_SIZE\<close> bytes (the last one may be shorter). Before each
  block it fills the corpus anew: the \<^verbatim>\<open>SAMPLE_SIZE\<close> entries of the block's
  corpus are the power-law literals, with the caller's \<open>lit_exp\<close>, of the next
  \<^verbatim>\<open>SAMPLE_SIZE\<close> draws of the generator, which for the first block is in the
  caller's state \<open>g\<close> and for every other block in the state the block before
  left it in. In the final output every byte written by a literal run or by the
  forced literal of a block is a byte of that block's corpus, \<open>smp i\<close> with
  \<open>i < SAMPLE_SIZE\<close>. The call returns at offset \<open>sz\<close> with the generator
  behind the draws of all blocks.
\<close>

theorem bulk_literals_from_corpus:
  assumes "lzdg_generate_data_bulk powf junk js m ptr sz ratio len_exp lit_exp g = Inr b"
  shows "run_log (block_corpus powf lit_exp sz (\<lambda>j. b_mem b (ptr + j))) (0, g) (b_blocks b)
           = Some (sz, b_rng b)"
proof -
  have "bulk_corpus_inv powf lit_exp sz ptr g b \<and> \<not> b_offs b < sz"
  proof (rule bulk_loop_invariant [OF assms [unfolded lzdg_generate_data_bulk_def],
        where P = "bulk_corpus_inv powf lit_exp sz ptr g"])
    show "bulk_corpus_inv powf lit_exp sz ptr g
            \<lparr>b_samples = js, b_offs = 0, b_mem = m, b_rng = g, b_blocks = []\<rparr>"
      by (simp add: bulk_corpus_inv_def)
  qed (rule bulk_corpus_inv_step)
  then show ?thesis
    by (auto simp: bulk_corpus_inv_def)
qed

theorem bulk_literals_from_corpus_witness:
  "\<exists>b. lzdg_generate_data_bulk powf_nat_exp (\<lambda>_. (fixture_freq, fixture_buf)) fixture_buf
          fixture_mem 100 3000000 2 3 3 (rng_const 0x80000000) = Inr b \<and>
        run_log (block_corpus powf_nat_exp 3 3000000 (\<lambda>j. b_mem b (100 + j)))
          (0, rng_const 0x80000000) (b_blocks b) = Some (3000000, b_rng b)"
proof -
  obtain b where b: "lzdg_generate_data_bulk powf_nat_exp (\<lambda>_. (fixture_freq, fixture_buf))
      fixture_buf fixture_mem 100 3000000 2 3 3 (rng_const 0x80000000) = Inr b"
    using lzdg_generate_data_bulk_ok [OF draws_in_range_half] by blast
  from bulk_literals_from_corpus [OF b] b show ?thesis by blast
qed

text \<open>
  C7. Within one refill cycle the lengths issued are non-increasing, and a
  refill happens only after all \<^verbatim>\<open>LEN_PER_CHUNK\<close> units of the previous refill
  have been issued: the scan cursor starts at the top bucket after a refill,
  only decrements, and reaches the bottom with every bucket empty before the
  next refill.
\<close>

theorem lengths_issued_top_down:
  assumes "generate_data_internal powf jf jb m ptr sz ratio len_exp lit_exp samples g = Inr s"
  shows "run_log cycle_order (MAX_LEN, LEN_PER_CHUNK) (trace s) \<noteq> None"
  using generate_data_internal_cycles [OF assms]
  unfolding cycle_inv_def by auto

theorem lengths_issued_top_down_witness:
  "\<exists>s. generate_data_internal powf_nat_exp fixture_freq fixture_buf fixture_mem 100 36 2 3 3
          None (rng_const 0x80000000) = Inr s \<and>
       run_log cycle_order (MAX_LEN, LEN_PER_CHUNK) (trace s) \<noteq> None"
proof -
  obtain s where s: "generate_data_internal powf_nat_exp fixture_freq fixture_buf fixture_mem
      100 36 2 3 3 None (rng_const 0x80000000) = Inr s"
    using generate_data_internal_ok [OF draws_in_range_half] by blast
  from lengths_issued_top_down [OF s] s show ?thesis by blast
qed

text \<open>
  C8. The claim: after clamping, every repeat-run length lies in \<open>[1, 258]\<close>.
  When the forced literal takes the last byte of the buffer, the length is
  clamped again to the remaining space, which is 0, and \<^verbatim>\<open>memcpy\<close> copies
  nothing: with size 259 and length 258 issued twice, the second repeat run has
  length 0.
\<close>

theorem repeat_length_counterexample:
  "filter is_write (log_of (lzdg_generate_data powf_nat_exp fixture_freq fixture_buf fixture_mem
      100 259 2 3 3 (rng_const 0xFFF00000)))
   = [Match 0 258, BreakLiteral 258, Match 259 0]"
  by (simp add: run_simps refill_top rand_double_const_top to_double_half)

text \<open>
  C8, amended. Every length issued by the histogram lies in \<open>[3, 258]\<close>. After
  clamping, a repeat run is at most as long as the length issued for it (so its
  length lies in \<open>[0, 258]\<close>); it is shorter than the issued length, and in
  particular shorter than 3, only when it ends exactly at the end of the
  buffer; and it is empty only directly after the forced literal.
\<close>

theorem run_lengths_in_range:
  assumes "generate_data_internal powf jf jb m ptr sz ratio len_exp lit_exp samples g = Inr s"
  shows "run_log (run_lengths sz) (MIN_LEN, False) (trace s) \<noteq> None"
  using generate_data_internal_run_lengths [OF assms]
  unfolding run_lengths_inv_def by auto

theorem run_lengths_in_range_witness:
  "\<exists>s. generate_data_internal powf_nat_exp fixture_freq fixture_buf fixture_mem 100 36 2 3 3
          None (rng_const 0x80000000) = Inr s \<and>
       run_log (run_lengths 36) (MIN_LEN, False) (trace s) \<noteq> None"
proof -
  obtain s where s: "generate_data_internal powf_nat_exp fixture_freq fixture_buf fixture_mem
      100 36 2 3 3 None (rng_const 0x80000000) = Inr s"
    using generate_data_internal_ok [OF draws_in_range_half] by blast
  from run_lengths_in_range [OF s] s show ?thesis by blast
qed

text \<open>
  C9. The output is a function of the generator state and the parameters
  alone. Two calls that start from the same generator state \<open>g\<close> (the same
  seed) with the same \<open>size\<close>, \<open>ratio\<close> and exponents give the same result,
  whatever the destination held before and whatever the uninitialised locals
  (\<^verbatim>\<open>len_freq\<close>, \<^verbatim>\<open>buffer\<close>, \<^verbatim>\<open>samples\<close>) held at entry: both fail at the
  assertion, or both return the same \<open>size\<close> bytes and leave the generator in
  the same state.
\<close>

theorem generation_deterministic:
  "data_result ptr sz (lzdg_generate_data powf jf1 jb1 m1 ptr sz ratio len_exp lit_exp g)
     = data_result ptr sz (lzdg_generate_data powf jf2 jb2 m2 ptr sz ratio len_exp lit_exp g) \<and>
   bulk_result ptr sz (lzdg_generate_data_bulk powf junk1 js1 m1 ptr sz ratio len_exp lit_exp g)
     = bulk_result ptr sz (lzdg_generate_data_bulk powf junk2 js2 m2 ptr sz ratio len_exp lit_exp g)"
proof (rule conjI)
  let ?r1 = "generate_data_internal powf jf1 jb1 m1 ptr sz ratio len_exp lit_exp None g"
  let ?r2 = "generate_data_internal powf jf2 jb2 m2 ptr sz ratio len_exp lit_exp None g"
  have rel: "rel_sum (=)
           (\<lambda>s1 s2. rng s1 = rng s2 \<and> (\<forall>a. ptr \<le> a \<and> a < ptr + sz \<longrightarrow> mem s1 a = mem s2 a))
           ?r1 ?r2"
    by (rule generate_data_internal_rel) (auto simp: same_corpus_def)
  show "data_result ptr sz (lzdg_generate_data powf jf1 jb1 m1 ptr sz ratio len_exp lit_exp g)
     = data_result ptr sz (lzdg_generate_data powf jf2 jb2 m2 ptr sz ratio len_exp lit_exp g)"
    using rel unfolding lzdg_generate_data_def data_result_def
    by (cases ?r1; cases ?r2) (auto dest: output_bytes_cong)
next
  let ?b1 = "\<lparr>b_samples = js1, b_offs = 0, b_mem = m1, b_rng = g, b_blocks = []\<rparr>"
  let ?b2 = "\<lparr>b_samples = js2, b_offs = 0, b_mem = m2, b_rng = g, b_blocks = []\<rparr>"
  let ?r1 = "bulk_loop powf junk1 ptr sz ratio len_exp lit_exp ?b1"
  let ?r2 = "bulk_loop powf junk2 ptr sz ratio len_exp lit_exp ?b2"
  have rel: "rel_sum (=) (bulk_in_step ptr) ?r1 ?r2"
    by (rule bulk_loop_rel) (auto simp: bulk_in_step_def)
  show "bulk_result ptr sz (lzdg_generate_data_bulk powf junk1 js1 m1 ptr sz ratio len_exp lit_exp g)
     = bulk_result ptr sz (lzdg_generate_data_bulk powf junk2 js2 m2 ptr sz ratio len_exp lit_exp g)"
  proof (cases ?r1)
    case (Inl e)
    with rel have "?r2 = Inl e" by (cases ?r2) auto
    with Inl show ?thesis
      by (simp add: lzdg_generate_data_bulk_def bulk_result_def)
  next
    case (Inr c1)
    with rel obtain c2 where c2: "?r2 = Inr c2" and r: "bulk_in_step ptr c1 c2"
      by (cases ?r2) auto
    have "b_offs c1 = sz"
      using bulk_blocks_count [OF Inr] by simp
    with r have "output_bytes ptr sz (b_mem c1) = output_bytes ptr sz (b_mem c2)"
      and "b_rng c1 = b_rng c2"
      by (auto simp: bulk_in_step_def intro: output_bytes_cong)
    with Inr c2 show ?thesis
      by (simp add: lzdg_generate_data_bulk_def bulk_result_def)
  qed
qed

text \<open>
  C10. Every repeat run is copied from offset 0 of the scratch buffer: in the
  final output the bytes of a repeat run of length \<open>L\<close> are the first \<open>L\<close>
  bytes of the scratch buffer of its refill cycle, and \<open>L\<close> is at most
  \<^verbatim>\<open>MAX_LEN\<close>. The scratch buffer changes only at a refill, so the repeat runs
  of one cycle are prefixes of one buffer, hence of one another.
\<close>

theorem repeat_runs_copy_scratch:
  assumes "generate_data_internal powf jf jb m ptr sz ratio len_exp lit_exp samples g = Inr s"
  shows "run_log (copies_scratch (\<lambda>j. mem s (ptr + j))) jb (trace s) = Some (buffer s)"
  using generate_data_internal_scratch [OF assms]
  unfolding scratch_inv_def by auto

theorem repeat_runs_copy_scratch_witness:
  "\<exists>s. generate_data_internal powf_nat_exp fixture_freq fixture_buf fixture_mem 100 36 2 3 3
          None (rng_const 0x80000000) = Inr s \<and>
       run_log (copies_scratch (\<lambda>j. mem s (100 + j))) fixture_buf (trace s) = Some (buffer s)"
proof -
  obtain s where s: "generate_data_internal powf_nat_exp fixture_freq fixture_buf fixture_mem
      100 36 2 3 3 None (rng_const 0x80000000) = Inr s"
    using generate_data_internal_ok [OF draws_in_range_half] by blast
  from repeat_runs_copy_scratch [OF s] s show ?thesis by blast
qed

end
